theory Spec2Isabelle
  imports Main "HOL-Library.Word"
begin

section \<open>The Multiple Reader Ring Buffer (mrrb.c, v0.2)\<close>

text \<open>
  A shallow embedding of \<^verbatim>\<open>Middlewares/Third_Party/MRRB/mrrb.c\<close> (version v0.2, the first
  of the two versions in that file) with the types of the v0.2 header.

  \<^item> A pointer into the ring buffer (\<open>read_ptr\<close>, \<open>read_complete_ptr\<close>, \<open>write_ptr\<close>,
    \<open>reservation_ptr\<close>) is its offset from \<open>mrrb->buffer\<close>, a \<open>nat\<close>. The lengths are
    \<open>nat\<close> as well: with every offset below \<open>buffer_length\<close> and every length at most
    \<open>buffer_length\<close> none of the unsigned subtractions of the source wraps around.
  \<^item> \<^verbatim>\<open>mrrb_write\<close> returns its \<^verbatim>\<open>unsigned int write_length\<close> as an \<^verbatim>\<open>int\<close>;
    \<open>int_of_unsigned\<close> is that conversion with 32-bit integers, two's complement: a length
    of 2147483648 or more comes out negative.
  \<^item> \<open>void *handle\<close> and the two function pointers are natural numbers, \<open>NULL\<close> is 0.
  \<^item> \<open>ongoing_writes\<close> is the 32-bit counter of the source.
  \<^item> The reader array of an MRRB is the list of its first \<open>num_readers\<close> readers, so
    \<open>num_readers\<close> is the length of \<open>readers\<close>.
  \<^item> A call of a reader's callback is recorded as a value of type \<open>callback\<close>; every
    operation returns the list of the callbacks it makes, in order. All of them are made after
    the operation has released the lock.
  \<^item> The outcome of each call into the port layer (lock, unlock, the interrupt predicate) is
    an argument of the operation that makes the call.
\<close>

type_synonym byte = "8 word"

definition NULL :: nat where
  "NULL = 0"

definition int_of_unsigned :: "nat \<Rightarrow> int" where
  "int_of_unsigned n = (let u = int n mod 2 ^ 32 in if u < 2 ^ 31 then u else u - 2 ^ 32)"

datatype mrrb_reader_status_t =
    MRRB_READER_STATUS_DISABLED
  | MRRB_READER_STATUS_IDLE
  | MRRB_READER_STATUS_ACTIVE
  | MRRB_READER_STATUS_ABORTING
  | MRRB_READER_STATUS_ABORTED
  | MRRB_READER_STATUS_DISABLING

datatype mrrb_reader_overrun_policy_t =
    MRRB_READER_OVERRUN_BLOCKING
  | MRRB_READER_OVERRUN_DISABLE
  | MRRB_READER_OVERRUN_SKIP

record ring_buffer_reader_t =
  handle :: nat
  overrun_policy :: mrrb_reader_overrun_policy_t
  read_ptr :: nat
  read_complete_ptr :: nat
  status :: mrrb_reader_status_t
  is_full :: bool
  notify_data :: nat
  abort_data :: nat

record multi_reader_ring_buffer_t =
  buffer :: "byte list"
  buffer_length :: nat
  readers :: "ring_buffer_reader_t list"
  write_ptr :: nat
  reservation_ptr :: nat
  ongoing_writes :: "32 word"

text \<open>
  \<open>Notify_data i h p n\<close>: \<open>readers[i].notify_data(mrrb, h, buffer + p, n)\<close>;
  \<open>Abort_data i h\<close>: \<open>readers[i].abort_data(mrrb, h)\<close>.
\<close>

datatype callback =
    Notify_data nat nat nat nat
  | Abort_data nat nat

subsection \<open>Private functions\<close>

text \<open>\<^verbatim>\<open>_mrrb_advance_pointer\<close>. The callers pass \<open>len \<le> buffer_length\<close>.\<close>

definition mrrb_advance_pointer :: "multi_reader_ring_buffer_t \<Rightarrow> nat \<Rightarrow> nat \<Rightarrow> nat" where
  "mrrb_advance_pointer mrrb ptr len =
     (if ptr < buffer_length mrrb - len then ptr + len
      else ptr - (buffer_length mrrb - len))"

text \<open>\<^verbatim>\<open>_mrrb_reader_get_continuous_readable_space\<close>\<close>

definition mrrb_reader_get_continuous_readable_space ::
  "multi_reader_ring_buffer_t \<Rightarrow> ring_buffer_reader_t \<Rightarrow> nat" where
  "mrrb_reader_get_continuous_readable_space mrrb reader =
     (if read_complete_ptr reader > write_ptr mrrb \<or> is_full reader
      then buffer_length mrrb - read_complete_ptr reader
      else write_ptr mrrb - read_complete_ptr reader)"

text \<open>\<^verbatim>\<open>_mrrb_reader_get_remaining_space\<close>\<close>

definition mrrb_reader_get_remaining_space ::
  "multi_reader_ring_buffer_t \<Rightarrow> ring_buffer_reader_t \<Rightarrow> nat" where
  "mrrb_reader_get_remaining_space mrrb reader =
     (if status reader = MRRB_READER_STATUS_DISABLED \<or>
         status reader = MRRB_READER_STATUS_DISABLING
      then buffer_length mrrb
      else if is_full reader then 0
      else if read_complete_ptr reader > reservation_ptr mrrb
      then read_complete_ptr reader - reservation_ptr mrrb
      else buffer_length mrrb - (reservation_ptr mrrb - read_complete_ptr reader))"

text \<open>\<^verbatim>\<open>_mrrb_reader_get_overwritable_space\<close>\<close>

definition mrrb_reader_get_overwritable_space ::
  "multi_reader_ring_buffer_t \<Rightarrow> ring_buffer_reader_t \<Rightarrow> nat" where
  "mrrb_reader_get_overwritable_space mrrb reader =
     (if overrun_policy reader = MRRB_READER_OVERRUN_BLOCKING
      then mrrb_reader_get_remaining_space mrrb reader
      else buffer_length mrrb)"

text \<open>
  \<^verbatim>\<open>_mrrb_get_reader_by_handle\<close>: the index of the first reader with the handle, from
  index \<open>i\<close> on; \<open>None\<close> is the null pointer the source returns when there is none.
\<close>

fun get_reader_from :: "nat \<Rightarrow> ring_buffer_reader_t list \<Rightarrow> nat \<Rightarrow> nat option" where
  "get_reader_from i [] h = None"
| "get_reader_from i (reader # rs) h =
     (if handle reader = h then Some i else get_reader_from (Suc i) rs h)"

definition mrrb_get_reader_by_handle :: "multi_reader_ring_buffer_t \<Rightarrow> nat \<Rightarrow> nat option" where
  "mrrb_get_reader_by_handle mrrb h = get_reader_from 0 (readers mrrb) h"

subsection \<open>Space queries\<close>

text \<open>The loop of \<^verbatim>\<open>mrrb_get_remaining_space\<close>, with the running minimum.\<close>

fun remaining_space_loop ::
  "multi_reader_ring_buffer_t \<Rightarrow> ring_buffer_reader_t list \<Rightarrow> nat \<Rightarrow> nat" where
  "remaining_space_loop mrrb [] remaining_space = remaining_space"
| "remaining_space_loop mrrb (reader # rs) remaining_space =
     (let reader_remaining_space = mrrb_reader_get_remaining_space mrrb reader
      in remaining_space_loop mrrb rs
           (if reader_remaining_space < remaining_space then reader_remaining_space
            else remaining_space))"

text \<open>The public queries take the MRRB pointer; \<open>None\<close> is \<open>mrrb == NULL\<close>.\<close>

definition mrrb_get_remaining_space :: "multi_reader_ring_buffer_t option \<Rightarrow> nat" where
  "mrrb_get_remaining_space p =
     (case p of None \<Rightarrow> 0
      | Some mrrb \<Rightarrow> remaining_space_loop mrrb (readers mrrb) (buffer_length mrrb))"

fun overwritable_space_loop ::
  "multi_reader_ring_buffer_t \<Rightarrow> ring_buffer_reader_t list \<Rightarrow> nat \<Rightarrow> nat" where
  "overwritable_space_loop mrrb [] overwritable_space = overwritable_space"
| "overwritable_space_loop mrrb (reader # rs) overwritable_space =
     (let reader_overwritable_space = mrrb_reader_get_overwritable_space mrrb reader
      in overwritable_space_loop mrrb rs
           (if reader_overwritable_space < overwritable_space then reader_overwritable_space
            else overwritable_space))"

definition mrrb_get_overwritable_space :: "multi_reader_ring_buffer_t option \<Rightarrow> nat" where
  "mrrb_get_overwritable_space p =
     (case p of None \<Rightarrow> 0
      | Some mrrb \<Rightarrow> overwritable_space_loop mrrb (readers mrrb) (buffer_length mrrb))"

definition mrrb_is_empty :: "multi_reader_ring_buffer_t option \<Rightarrow> int" where
  "mrrb_is_empty p =
     (case p of None \<Rightarrow> - 1
      | Some mrrb \<Rightarrow> if mrrb_get_remaining_space p = buffer_length mrrb then 1 else 0)"

fun is_full_loop :: "ring_buffer_reader_t list \<Rightarrow> int" where
  "is_full_loop [] = 0"
| "is_full_loop (reader # rs) =
     (if status reader = MRRB_READER_STATUS_ACTIVE \<and> is_full reader then 1
      else is_full_loop rs)"

definition mrrb_is_full :: "multi_reader_ring_buffer_t option \<Rightarrow> int" where
  "mrrb_is_full p = (case p of None \<Rightarrow> - 1 | Some mrrb \<Rightarrow> is_full_loop (readers mrrb))"

subsection \<open>Initialisation, enabling and disabling\<close>

text \<open>
  \<^verbatim>\<open>mrrb_init\<close>. \<open>mrrb\<close> is the structure as it was before the call, \<open>buf\<close> and \<open>rs\<close>
  are the buffer and the reader array (\<open>None\<close>: a null pointer), \<open>lock_init_ok\<close> says that
  \<^verbatim>\<open>port_lock_init\<close> succeeds (always, when no mutex is used). The result is the return
  value and the structure after the call.
\<close>

definition init_reader :: "ring_buffer_reader_t \<Rightarrow> ring_buffer_reader_t" where
  "init_reader reader =
     reader\<lparr>status := MRRB_READER_STATUS_IDLE, read_ptr := 0, read_complete_ptr := 0,
            is_full := False\<rparr>"

definition mrrb_init ::
  "bool \<Rightarrow> multi_reader_ring_buffer_t \<Rightarrow> byte list option \<Rightarrow> nat \<Rightarrow>
   ring_buffer_reader_t list option \<Rightarrow> int \<times> multi_reader_ring_buffer_t" where
  "mrrb_init lock_init_ok mrrb buf buffer_len rs =
     (case buf of None \<Rightarrow> (- 1, mrrb)
      | Some b \<Rightarrow>
         (case rs of None \<Rightarrow> (- 1, mrrb)
          | Some rdrs \<Rightarrow>
             if buffer_len = 0 \<or> length rdrs = 0 then (- 1, mrrb)
             else
               let m1 = mrrb\<lparr>buffer := b, buffer_length := buffer_len, readers := rdrs,
                               write_ptr := 0, reservation_ptr := 0, ongoing_writes := 0\<rparr>
               in if \<not> lock_init_ok then (- 1, m1)
                  else (0, m1\<lparr>readers := map init_reader (readers m1)\<rparr>)))"

text \<open>
  \<^verbatim>\<open>mrrb_reader_init\<close>: \<open>None\<close> is \<open>reader == NULL\<close>; the cursors of the reader are
  left as they are.
\<close>

definition mrrb_reader_init ::
  "ring_buffer_reader_t option \<Rightarrow> nat \<Rightarrow> mrrb_reader_overrun_policy_t \<Rightarrow> nat \<Rightarrow> nat \<Rightarrow>
   int \<times> ring_buffer_reader_t option" where
  "mrrb_reader_init p h policy notify abort =
     (case p of None \<Rightarrow> (- 1, None)
      | Some reader \<Rightarrow>
          if notify = NULL \<or> (policy = MRRB_READER_OVERRUN_SKIP \<and> abort = NULL)
          then (- 1, Some reader)
          else (0, Some (reader\<lparr>handle := h, overrun_policy := policy,
                                  notify_data := notify, abort_data := abort,
                                  status := MRRB_READER_STATUS_IDLE, is_full := False\<rparr>)))"

text \<open>
  \<^verbatim>\<open>mrrb_reader_enable\<close> reads \<open>mrrb->reservation_ptr\<close> and writes the reader structure
  only; the result is the return value and the reader after the call. \<open>None\<close> for the
  reader is \<open>reader == NULL\<close>.
\<close>

definition mrrb_reader_enable ::
  "bool \<Rightarrow> multi_reader_ring_buffer_t \<Rightarrow> ring_buffer_reader_t option \<Rightarrow>
   int \<times> ring_buffer_reader_t option" where
  "mrrb_reader_enable lock_ok mrrb p =
     (case p of None \<Rightarrow> (- 1, None)
      | Some reader \<Rightarrow>
          if \<not> lock_ok then (- 1, Some reader)
          else if status reader = MRRB_READER_STATUS_DISABLED \<or>
                  status reader = MRRB_READER_STATUS_DISABLING
          then (0, Some (reader\<lparr>status := MRRB_READER_STATUS_IDLE, is_full := False,
                                  read_ptr := reservation_ptr mrrb,
                                  read_complete_ptr := reservation_ptr mrrb\<rparr>))
          else (0, Some reader))"

text \<open>\<^verbatim>\<open>mrrb_reader_disable\<close>; \<open>i\<close> is the index of the reader, for the callback record.\<close>

definition mrrb_reader_disable ::
  "bool \<Rightarrow> nat \<Rightarrow> ring_buffer_reader_t option \<Rightarrow>
   int \<times> ring_buffer_reader_t option \<times> callback list" where
  "mrrb_reader_disable lock_ok i p =
     (case p of None \<Rightarrow> (- 1, None, [])
      | Some reader \<Rightarrow>
          if \<not> lock_ok then (- 1, Some reader, [])
          else if status reader = MRRB_READER_STATUS_DISABLING \<or>
                  status reader = MRRB_READER_STATUS_DISABLED
          then (0, Some reader, [])
          else if abort_data reader \<noteq> NULL
          then (0, Some (reader\<lparr>status := MRRB_READER_STATUS_DISABLING\<rparr>),
                [Abort_data i (handle reader)])
          else (0, Some (reader\<lparr>status := MRRB_READER_STATUS_DISABLED\<rparr>), []))"

subsection \<open>Overrun clearing\<close>

text \<open>
  The body of the loop of \<^verbatim>\<open>_mrrb_clear_overrun_space\<close> for one reader: the reader after
  the iteration, its \<open>reader_clear_space\<close> (\<open>None\<close> when the iteration is left by
  \<^verbatim>\<open>continue\<close>) and whether its bit in \<open>reader_abort_flags\<close> is set.
\<close>

definition clear_overrun_reader ::
  "multi_reader_ring_buffer_t \<Rightarrow> nat \<Rightarrow> ring_buffer_reader_t \<Rightarrow>
   ring_buffer_reader_t \<times> nat option \<times> bool" where
  "clear_overrun_reader mrrb requested_space reader =
     (if status reader = MRRB_READER_STATUS_DISABLED \<or>
         status reader = MRRB_READER_STATUS_DISABLING \<or>
         status reader = MRRB_READER_STATUS_IDLE
      then (reader, None, False)
      else
        let reader_clear_space = mrrb_reader_get_remaining_space mrrb reader in
        if reader_clear_space < requested_space then
          (case overrun_policy reader of
             MRRB_READER_OVERRUN_BLOCKING \<Rightarrow> (reader, Some reader_clear_space, False)
           | MRRB_READER_OVERRUN_DISABLE \<Rightarrow>
               if abort_data reader \<noteq> NULL
               then (reader\<lparr>status := MRRB_READER_STATUS_DISABLING\<rparr>,
                     Some (buffer_length mrrb), True)
               else (reader\<lparr>status := MRRB_READER_STATUS_DISABLED\<rparr>,
                     Some (buffer_length mrrb), False)
           | MRRB_READER_OVERRUN_SKIP \<Rightarrow>
               let aborted = (status reader = MRRB_READER_STATUS_ACTIVE);
                   r1 = (if aborted
                         then reader\<lparr>status := MRRB_READER_STATUS_ABORTING,
                                     read_complete_ptr := read_ptr reader,
                                     is_full := False\<rparr>
                         else reader);
                   s1 = mrrb_reader_get_remaining_space mrrb r1;
                   r2 = (if s1 < requested_space
                         then r1\<lparr>read_complete_ptr :=
                                   mrrb_advance_pointer mrrb (read_complete_ptr r1)
                                     (requested_space - s1)\<rparr>
                         else r1);
                   s2 = (if s1 < requested_space then requested_space else s1)
               in (r2\<lparr>is_full := (s2 = requested_space)\<rparr>, Some s2, aborted))
        else (reader, Some reader_clear_space, False))"

fun clear_overrun_loop ::
  "multi_reader_ring_buffer_t \<Rightarrow> nat \<Rightarrow> ring_buffer_reader_t list \<Rightarrow> nat \<Rightarrow>
   ring_buffer_reader_t list \<times> nat \<times> bool list" where
  "clear_overrun_loop mrrb requested_space [] clear_space = ([], clear_space, [])"
| "clear_overrun_loop mrrb requested_space (reader # rs) clear_space =
     (case clear_overrun_reader mrrb requested_space reader of
        (reader', reader_clear_space, flag) \<Rightarrow>
          (case clear_overrun_loop mrrb requested_space rs
                  (case reader_clear_space of
                     None \<Rightarrow> clear_space
                   | Some s \<Rightarrow> if s < clear_space then s else clear_space) of
             (rs', clear_space', flags) \<Rightarrow> (reader' # rs', clear_space', flag # flags)))"

text \<open>
  \<^verbatim>\<open>_mrrb_clear_overrun_space\<close>: the MRRB after the call, the returned \<open>clear_space\<close> and
  the abort flags, one per reader.
\<close>

definition mrrb_clear_overrun_space ::
  "multi_reader_ring_buffer_t \<Rightarrow> nat \<Rightarrow> multi_reader_ring_buffer_t \<times> nat \<times> bool list" where
  "mrrb_clear_overrun_space mrrb requested_space =
     (case clear_overrun_loop mrrb requested_space (readers mrrb) (buffer_length mrrb) of
        (rs', clear_space, flags) \<Rightarrow> (mrrb\<lparr>readers := rs'\<rparr>, clear_space, flags))"

subsection \<open>Writing\<close>

text \<open>
  \<^verbatim>\<open>mrrb_write\<close> holds the lock twice. \<open>mrrb_write_reserve\<close> is its first critical section
  (from the first \<^verbatim>\<open>_mrrb_lock\<close> to \<open>ongoing_writes++\<close>), \<open>mrrb_write_copy\<close> the two
  \<^verbatim>\<open>memcpy\<close> calls made without the lock, and \<open>mrrb_write_publish\<close> the second critical
  section together with the notification loop that follows it. The local variables that
  survive the first critical section are collected in \<open>write_locals\<close>.
\<close>

record write_locals =
  write_length :: nat
  write_pointer :: nat
  continuous_write_length :: nat
  spill_write_length :: nat
  reader_notification_flags :: "bool list"
  abort_readers :: bool

definition update_full_flag ::
  "multi_reader_ring_buffer_t \<Rightarrow> ring_buffer_reader_t \<Rightarrow> ring_buffer_reader_t" where
  "update_full_flag mrrb reader =
     (if status reader = MRRB_READER_STATUS_DISABLED \<or>
         status reader = MRRB_READER_STATUS_DISABLING
      then reader
      else reader\<lparr>is_full := (reservation_ptr mrrb = read_complete_ptr reader)\<rparr>)"

text \<open>
  The choice of the write length at the start of the first critical section: the MRRB (after
  the overrun clearing, when it runs), \<open>write_length\<close>, the abort flags and
  \<open>abort_readers\<close>.
\<close>

definition write_length_choice ::
  "multi_reader_ring_buffer_t \<Rightarrow> nat \<Rightarrow>
   multi_reader_ring_buffer_t \<times> nat \<times> bool list \<times> bool" where
  "write_length_choice mrrb data_length =
     (let remaining_space = mrrb_get_remaining_space (Some mrrb);
          no_flags = replicate (length (readers mrrb)) False
      in if data_length \<le> remaining_space then (mrrb, data_length, no_flags, False)
         else
           let overwritable_space = mrrb_get_overwritable_space (Some mrrb) in
           if overwritable_space > remaining_space then
             let requested_space =
                   (if data_length \<le> buffer_length mrrb then data_length
                    else buffer_length mrrb)
             in (case mrrb_clear_overrun_space mrrb requested_space of
                   (m', remaining_space', fl) \<Rightarrow>
                     (m', if data_length \<le> remaining_space' then data_length
                          else remaining_space', fl, True))
           else (mrrb, remaining_space, no_flags, False))"

definition mrrb_write_reserve ::
  "multi_reader_ring_buffer_t \<Rightarrow> nat \<Rightarrow> multi_reader_ring_buffer_t \<times> write_locals" where
  "mrrb_write_reserve mrrb data_length =
     (case write_length_choice mrrb data_length of
        (m1, wlen, flags, aborts) \<Rightarrow>
          let continuous_remaining_space = buffer_length m1 - reservation_ptr m1;
              wptr = reservation_ptr m1;
              spills = (wlen \<ge> continuous_remaining_space);
              m2 = m1\<lparr>reservation_ptr :=
                        (if spills then wlen - continuous_remaining_space
                         else reservation_ptr m1 + wlen)\<rparr>;
              m3 = m2\<lparr>readers := map (update_full_flag m2) (readers m2)\<rparr>;
              m4 = m3\<lparr>ongoing_writes := ongoing_writes m3 + 1\<rparr>
          in (m4,
              \<lparr>write_length = wlen, write_pointer = wptr,
               continuous_write_length =
                 (if spills then continuous_remaining_space else wlen),
               spill_write_length = (if spills then wlen - continuous_remaining_space else 0),
               reader_notification_flags = flags, abort_readers = aborts\<rparr>))"

text \<open>The abort callbacks of the flagged readers, in index order, from index \<open>i\<close> on.\<close>

fun abort_loop :: "nat \<Rightarrow> ring_buffer_reader_t list \<Rightarrow> bool list \<Rightarrow> callback list" where
  "abort_loop i (reader # rs) (flag # flags) =
     (if flag then Abort_data i (handle reader) # abort_loop (Suc i) rs flags
      else abort_loop (Suc i) rs flags)"
| "abort_loop i rs flags = []"

text \<open>\<^verbatim>\<open>memcpy(dest + off, src, n)\<close> on a buffer that holds at least \<open>off + n\<close> bytes.\<close>

definition memcpy :: "byte list \<Rightarrow> nat \<Rightarrow> byte list \<Rightarrow> nat \<Rightarrow> byte list" where
  "memcpy dest off src n = take off dest @ take n src @ drop (off + n) dest"

definition mrrb_write_copy ::
  "multi_reader_ring_buffer_t \<Rightarrow> byte list \<Rightarrow> write_locals \<Rightarrow> multi_reader_ring_buffer_t" where
  "mrrb_write_copy mrrb data l =
     (let b1 = (if continuous_write_length l > 0
                then memcpy (buffer mrrb) (write_pointer l) data (continuous_write_length l)
                else buffer mrrb);
          b2 = (if spill_write_length l > 0
                then memcpy b1 0 (drop (continuous_write_length l) data) (spill_write_length l)
                else b1)
      in mrrb\<lparr>buffer := b2\<rparr>)"

text \<open>The loop "Reserve readers" for one reader: the reader and its notification flag.\<close>

definition publish_reader ::
  "multi_reader_ring_buffer_t \<Rightarrow> ring_buffer_reader_t \<Rightarrow> ring_buffer_reader_t \<times> bool" where
  "publish_reader mrrb reader =
     (if status reader = MRRB_READER_STATUS_IDLE
      then (reader\<lparr>status := MRRB_READER_STATUS_ACTIVE,
                   read_complete_ptr := write_ptr mrrb\<rparr>, True)
      else if status reader = MRRB_READER_STATUS_ABORTED
      then (reader\<lparr>status := MRRB_READER_STATUS_ACTIVE\<rparr>, True)
      else (reader, False))"

text \<open>The loop "Notify readers", from index \<open>i\<close> on: the readers and the callbacks made.\<close>

fun notify_loop ::
  "multi_reader_ring_buffer_t \<Rightarrow> nat \<Rightarrow> (ring_buffer_reader_t \<times> bool) list \<Rightarrow>
   ring_buffer_reader_t list \<times> callback list" where
  "notify_loop mrrb i [] = ([], [])"
| "notify_loop mrrb i ((reader, flag) # rest) =
     (case notify_loop mrrb (Suc i) rest of
        (rs', cbs) \<Rightarrow>
          if flag then
            let readable_data_length = mrrb_reader_get_continuous_readable_space mrrb reader;
                reader' = reader\<lparr>read_ptr :=
                            mrrb_advance_pointer mrrb (read_complete_ptr reader)
                              readable_data_length\<rparr>
            in (reader' # rs',
                Notify_data i (handle reader') (read_complete_ptr reader')
                  readable_data_length # cbs)
          else (reader # rs', cbs))"

definition mrrb_write_publish ::
  "multi_reader_ring_buffer_t \<Rightarrow> multi_reader_ring_buffer_t \<times> callback list" where
  "mrrb_write_publish mrrb =
     (let m1 = mrrb\<lparr>ongoing_writes := ongoing_writes mrrb - 1\<rparr> in
      if ongoing_writes m1 = 0 then
        let prs = map (publish_reader m1) (readers m1);
            m2 = m1\<lparr>readers := map fst prs\<rparr>;
            m3 = m2\<lparr>write_ptr := reservation_ptr m2\<rparr>
        in (case notify_loop m3 0 (zip (readers m3) (map snd prs)) of
              (rs', cbs) \<Rightarrow> (m3\<lparr>readers := rs'\<rparr>, cbs))
      else (m1, []))"

text \<open>
  The port during one \<^verbatim>\<open>mrrb_write\<close>: whether \<^verbatim>\<open>port_interrupt_active\<close> holds (with
  \<^verbatim>\<open>MRRB_ALLOW_WRITE_FROM_ISR == 0\<close>, the default), and whether the first lock, the first
  unlock and the second lock succeed. The results of the later unlocks are ignored by the
  source.
\<close>

record port_t =
  interrupt_active :: bool
  first_lock :: bool
  first_unlock :: bool
  second_lock :: bool

definition port_ok :: port_t where
  "port_ok = \<lparr>interrupt_active = False, first_lock = True, first_unlock = True,
              second_lock = True\<rparr>"

text \<open>
  \<^verbatim>\<open>mrrb_write\<close>: \<open>None\<close> is \<open>data == NULL\<close>, and \<open>Some data\<close> is the \<open>data_length\<close>
  bytes at \<open>data\<close>. The result is the return value (\<^verbatim>\<open>write_length\<close> converted to
  \<^verbatim>\<open>int\<close> when the call gets to its end), the MRRB after the call and the callbacks made.
\<close>

definition mrrb_write ::
  "port_t \<Rightarrow> multi_reader_ring_buffer_t \<Rightarrow> byte list option \<Rightarrow>
   int \<times> multi_reader_ring_buffer_t \<times> callback list" where
  "mrrb_write port mrrb p =
     (case p of None \<Rightarrow> (- 1, mrrb, [])
      | Some data \<Rightarrow>
          if length data = 0 then (0, mrrb, [])
          else if interrupt_active port then (0, mrrb, [])
          else if \<not> first_lock port then (- 1, mrrb, [])
          else
            (case mrrb_write_reserve mrrb (length data) of
               (m1, l) \<Rightarrow>
                 if \<not> first_unlock port then (- 1, m1, [])
                 else
                   let aborts = (if abort_readers l
                                 then abort_loop 0 (readers m1) (reader_notification_flags l)
                                 else []);
                       m2 = mrrb_write_copy m1 data l
                   in if \<not> second_lock port then (- 1, m2, aborts)
                      else
                        (case mrrb_write_publish m2 of
                           (m3, notifies) \<Rightarrow>
                             (int_of_unsigned (write_length l), m3, aborts @ notifies))))"

subsection \<open>Completion\<close>

text \<open>\<^verbatim>\<open>mrrb_read_complete\<close>; \<open>lock_ok\<close> says that \<^verbatim>\<open>_mrrb_lock\<close> succeeds.\<close>

definition mrrb_read_complete ::
  "bool \<Rightarrow> multi_reader_ring_buffer_t \<Rightarrow> nat \<Rightarrow>
   multi_reader_ring_buffer_t \<times> callback list" where
  "mrrb_read_complete lock_ok mrrb reader_handle =
     (if reader_handle = NULL then (mrrb, [])
      else
        (case mrrb_get_reader_by_handle mrrb reader_handle of
           None \<Rightarrow> (mrrb, [])
         | Some i \<Rightarrow>
             if \<not> lock_ok then (mrrb, [])
             else
               let reader = readers mrrb ! i in
               if status reader = MRRB_READER_STATUS_ACTIVE then
                 let r1 = reader\<lparr>is_full := False, read_complete_ptr := read_ptr reader\<rparr>;
                     readable_data_length = mrrb_reader_get_continuous_readable_space mrrb r1
                 in if readable_data_length > 0 then
                      let r2 = r1\<lparr>read_ptr :=
                                    mrrb_advance_pointer mrrb (read_complete_ptr r1)
                                      readable_data_length\<rparr>
                      in (mrrb\<lparr>readers := (readers mrrb)[i := r2]\<rparr>,
                          [Notify_data i (handle r2) (read_complete_ptr r2)
                             readable_data_length])
                    else
                      (mrrb\<lparr>readers :=
                              (readers mrrb)[i := r1\<lparr>status := MRRB_READER_STATUS_IDLE\<rparr>]\<rparr>,
                       [])
               else (mrrb, [])))"

text \<open>\<^verbatim>\<open>mrrb_abort_complete\<close>\<close>

definition mrrb_abort_complete ::
  "bool \<Rightarrow> multi_reader_ring_buffer_t \<Rightarrow> nat \<Rightarrow>
   multi_reader_ring_buffer_t \<times> callback list" where
  "mrrb_abort_complete lock_ok mrrb reader_handle =
     (if reader_handle = NULL then (mrrb, [])
      else
        (case mrrb_get_reader_by_handle mrrb reader_handle of
           None \<Rightarrow> (mrrb, [])
         | Some i \<Rightarrow>
             if \<not> lock_ok then (mrrb, [])
             else
               let reader = readers mrrb ! i in
               if status reader = MRRB_READER_STATUS_DISABLING then
                 (mrrb\<lparr>readers :=
                         (readers mrrb)[i := reader\<lparr>status := MRRB_READER_STATUS_DISABLED\<rparr>]\<rparr>,
                  [])
               else if status reader = MRRB_READER_STATUS_ABORTING then
                 let readable_data_length =
                       mrrb_reader_get_continuous_readable_space mrrb reader
                 in if readable_data_length > 0 \<and> ongoing_writes mrrb = 0 then
                      let r2 = reader\<lparr>read_ptr :=
                                    mrrb_advance_pointer mrrb (read_complete_ptr reader)
                                      readable_data_length,
                                  status := MRRB_READER_STATUS_ACTIVE\<rparr>
                      in (mrrb\<lparr>readers := (readers mrrb)[i := r2]\<rparr>,
                          [Notify_data i (handle r2) (read_complete_ptr r2)
                             readable_data_length])
                    else
                      (mrrb\<lparr>readers :=
                              (readers mrrb)[i := reader\<lparr>status := MRRB_READER_STATUS_ABORTED\<rparr>]\<rparr>,
                       [])
               else (mrrb, [])))"

section \<open>Specification-level notions and sample states\<close>

text \<open>
  The space of a reader in the words of the specification: the forward distance from the
  reservation pointer to the reader's \<open>read_complete_ptr\<close>, counted modulo the buffer length,
  where equal pointers are a whole lap (the reader holds no byte; a reader that holds the whole
  buffer has \<open>is_full\<close> set and contributes 0).
\<close>

definition forward_distance :: "nat \<Rightarrow> nat \<Rightarrow> nat \<Rightarrow> nat" where
  "forward_distance n a b = (let d = (b + n - a) mod n in if d = 0 then n else d)"

definition reader_space :: "multi_reader_ring_buffer_t \<Rightarrow> ring_buffer_reader_t \<Rightarrow> nat" where
  "reader_space mrrb reader =
     (if status reader = MRRB_READER_STATUS_DISABLED \<or>
         status reader = MRRB_READER_STATUS_DISABLING then buffer_length mrrb
      else if is_full reader then 0
      else forward_distance (buffer_length mrrb) (reservation_ptr mrrb)
             (read_complete_ptr reader))"

text \<open>
  Sequential use: every call runs to its end before the next one starts, every lock and
  unlock succeeds, and no call is made from an interrupt handler.
\<close>

datatype mrrb_call = Write "byte list" | Read_complete nat | Abort_complete nat

fun call ::
  "multi_reader_ring_buffer_t \<Rightarrow> mrrb_call \<Rightarrow> multi_reader_ring_buffer_t \<times> callback list" where
  "call mrrb (Write data) = snd (mrrb_write port_ok mrrb (Some data))"
| "call mrrb (Read_complete h) = mrrb_read_complete True mrrb h"
| "call mrrb (Abort_complete h) = mrrb_abort_complete True mrrb h"

fun exec :: "multi_reader_ring_buffer_t \<Rightarrow> mrrb_call list \<Rightarrow> multi_reader_ring_buffer_t" where
  "exec mrrb [] = mrrb"
| "exec mrrb (c # cs) = exec (fst (call mrrb c)) cs"

text \<open>
  Sample states. \<open>new_reader\<close> is a reader structure after \<^verbatim>\<open>mrrb_reader_init\<close> (with
  the notify function 1), \<open>new_mrrb n rs\<close> an MRRB after \<^verbatim>\<open>mrrb_init\<close> on a zeroed buffer
  of \<open>n\<close> bytes and the readers \<open>rs\<close>.
\<close>

definition blank_reader :: ring_buffer_reader_t where
  "blank_reader = \<lparr>handle = 0, overrun_policy = MRRB_READER_OVERRUN_BLOCKING, read_ptr = 0,
     read_complete_ptr = 0, status = MRRB_READER_STATUS_DISABLED, is_full = False,
     notify_data = 0, abort_data = 0\<rparr>"

definition blank_mrrb :: multi_reader_ring_buffer_t where
  "blank_mrrb = \<lparr>buffer = [], buffer_length = 0, readers = [], write_ptr = 0,
     reservation_ptr = 0, ongoing_writes = 0\<rparr>"

definition new_reader ::
  "nat \<Rightarrow> mrrb_reader_overrun_policy_t \<Rightarrow> nat \<Rightarrow> ring_buffer_reader_t" where
  "new_reader h policy abort =
     (case mrrb_reader_init (Some blank_reader) h policy 1 abort of
        (_, Some reader) \<Rightarrow> reader | (_, None) \<Rightarrow> blank_reader)"

definition new_mrrb :: "nat \<Rightarrow> ring_buffer_reader_t list \<Rightarrow> multi_reader_ring_buffer_t" where
  "new_mrrb n rs = snd (mrrb_init True blank_mrrb (Some (replicate n 0)) n (Some rs))"

definition used_reader :: ring_buffer_reader_t where
  "used_reader = \<lparr>handle = 7, overrun_policy = MRRB_READER_OVERRUN_SKIP, read_ptr = 3,
     read_complete_ptr = 2, status = MRRB_READER_STATUS_ABORTING, is_full = True,
     notify_data = 1, abort_data = 1\<rparr>"

definition blocking_mrrb :: multi_reader_ring_buffer_t where
  "blocking_mrrb = new_mrrb 4 [new_reader 1 MRRB_READER_OVERRUN_BLOCKING 0]"

definition skip_mrrb :: multi_reader_ring_buffer_t where
  "skip_mrrb = new_mrrb 4 [new_reader 1 MRRB_READER_OVERRUN_SKIP 1]"

definition aborting_mrrb :: multi_reader_ring_buffer_t where
  "aborting_mrrb = exec skip_mrrb [Write [1, 2], Write [3, 4], Write [5, 6, 7]]"

definition active_mrrb :: multi_reader_ring_buffer_t where
  "active_mrrb = exec blocking_mrrb [Write [1, 2, 3]]"

definition active_reader :: ring_buffer_reader_t where
  "active_reader = \<lparr>handle = 1, overrun_policy = MRRB_READER_OVERRUN_BLOCKING, read_ptr = 3,
     read_complete_ptr = 0, status = MRRB_READER_STATUS_ACTIVE, is_full = False,
     notify_data = 1, abort_data = 0\<rparr>"

definition full_mrrb :: multi_reader_ring_buffer_t where
  "full_mrrb = exec blocking_mrrb [Write [1, 2, 3, 4]]"

definition overrun_mrrb :: multi_reader_ring_buffer_t where
  "overrun_mrrb = exec skip_mrrb [Write [1, 2], Write [3, 4]]"

text \<open>
  The same with a reader whose handle is \<open>NULL\<close>, which \<^verbatim>\<open>mrrb_reader_init\<close> accepts:
  an ACTIVE reader after one write, and an ABORTING one after the three writes of
  \<open>aborting_mrrb\<close>.
\<close>

definition null_handle_mrrb :: multi_reader_ring_buffer_t where
  "null_handle_mrrb =
     exec (new_mrrb 4 [new_reader NULL MRRB_READER_OVERRUN_BLOCKING 0]) [Write [1, 2, 3]]"

definition null_handle_aborting_mrrb :: multi_reader_ring_buffer_t where
  "null_handle_aborting_mrrb =
     exec (new_mrrb 4 [new_reader NULL MRRB_READER_OVERRUN_SKIP 1])
       [Write [1, 2], Write [3, 4], Write [5, 6, 7]]"

text \<open>
  \<^verbatim>\<open>mrrb_write\<close> of non-empty data, outside an interrupt handler and with every lock
  and unlock succeeding, while \<open>other\<close> (an operation of another thread, or one made from an
  abort callback) runs between its two critical sections.
\<close>

definition mrrb_write_with ::
  "(multi_reader_ring_buffer_t \<Rightarrow> multi_reader_ring_buffer_t \<times> callback list) \<Rightarrow>
   multi_reader_ring_buffer_t \<Rightarrow> byte list \<Rightarrow>
   int \<times> multi_reader_ring_buffer_t \<times> callback list" where
  "mrrb_write_with other mrrb data =
     (case mrrb_write_reserve mrrb (length data) of
        (m1, l) \<Rightarrow>
          let aborts = (if abort_readers l
                        then abort_loop 0 (readers m1) (reader_notification_flags l)
                        else [])
          in (case other m1 of
                (m1', cbs) \<Rightarrow>
                  (case mrrb_write_publish (mrrb_write_copy m1' data l) of
                     (m3, notifies) \<Rightarrow>
                       (int_of_unsigned (write_length l), m3, aborts @ cbs @ notifies))))"



text \<open>
  What a reader has been handed. A notify callback gets a pointer into the ring buffer and a
  length; \<open>notified i buf cbs\<close> is the concatenation of the slices that the callbacks
  \<open>cbs\<close> pass to the reader with index \<open>i\<close>, read from the buffer \<open>buf\<close>. The buffer
  is taken as it is when the call returns: \<^verbatim>\<open>mrrb_write\<close> makes its callbacks after both
  copies, and \<^verbatim>\<open>mrrb_read_complete\<close> does not write to the buffer. \<open>delivered\<close> collects
  the slices over a sequence of calls, \<open>returns\<close> the values returned by the calls
  (0 for the \<^verbatim>\<open>void\<close> functions), and \<open>accepted\<close> the bytes taken from the writers: of each
  write the first \<open>ret\<close> bytes of its input, for its return value \<open>ret\<close>.
\<close>

fun notified :: "nat \<Rightarrow> byte list \<Rightarrow> callback list \<Rightarrow> byte list" where
  "notified i buf [] = []"
| "notified i buf (Notify_data j h p n # cbs) =
     (if j = i then take n (drop p buf) else []) @ notified i buf cbs"
| "notified i buf (Abort_data j h # cbs) = notified i buf cbs"

fun delivered :: "nat \<Rightarrow> multi_reader_ring_buffer_t \<Rightarrow> mrrb_call list \<Rightarrow> byte list" where
  "delivered i mrrb [] = []"
| "delivered i mrrb (c # cs) =
     (case call mrrb c of
        (mrrb', cbs) \<Rightarrow> notified i (buffer mrrb') cbs @ delivered i mrrb' cs)"

fun returned :: "multi_reader_ring_buffer_t \<Rightarrow> mrrb_call \<Rightarrow> int" where
  "returned mrrb (Write data) = fst (mrrb_write port_ok mrrb (Some data))"
| "returned mrrb c = 0"

fun input :: "mrrb_call \<Rightarrow> byte list" where
  "input (Write data) = data"
| "input c = []"

fun accepted :: "multi_reader_ring_buffer_t \<Rightarrow> mrrb_call list \<Rightarrow> byte list" where
  "accepted mrrb [] = []"
| "accepted mrrb (c # cs) =
     take (nat (returned mrrb c)) (input c) @ accepted (fst (call mrrb c)) cs"

fun returns :: "multi_reader_ring_buffer_t \<Rightarrow> mrrb_call list \<Rightarrow> int list" where
  "returns mrrb [] = []"
| "returns mrrb (c # cs) = returned mrrb c # returns (fst (call mrrb c)) cs"

text \<open>
  In the words of the specification: the prefix of the concatenated writer input whose length
  is the sum of the values returned by \<^verbatim>\<open>mrrb_write\<close>.
\<close>

definition writer_stream_prefix ::
  "multi_reader_ring_buffer_t \<Rightarrow> mrrb_call list \<Rightarrow> byte list" where
  "writer_stream_prefix mrrb cs =
     take (nat (sum_list (returns mrrb cs))) (concat (map input cs))"

text \<open>
  A write of non-empty data that takes no byte while the reader is IDLE does not occur in
  the sequence of calls.
\<close>

fun idle_writes_accept ::
  "nat \<Rightarrow> multi_reader_ring_buffer_t \<Rightarrow> mrrb_call list \<Rightarrow> bool" where
  "idle_writes_accept i mrrb [] = True"
| "idle_writes_accept i mrrb (c # cs) =
     (\<not> (input c \<noteq> [] \<and> returned mrrb c = 0 \<and>
         status (readers mrrb ! i) = MRRB_READER_STATUS_IDLE) \<and>
      idle_writes_accept i (fst (call mrrb c)) cs)"

text \<open>
  The state of the MRRB between two calls, for the BLOCKING reader \<open>i\<close>, the stream \<open>s\<close> of
  accepted bytes and the bytes \<open>d\<close> handed to the reader so far. The pointers are stream
  positions modulo the buffer length; an ACTIVE reader has completed the stream up to a
  position \<open>c\<close>, and the buffer holds the stream from there on.
\<close>

definition stream_inv ::
  "nat \<Rightarrow> multi_reader_ring_buffer_t \<Rightarrow> byte list \<Rightarrow> byte list \<Rightarrow> bool" where
  "stream_inv i mrrb s d \<longleftrightarrow>
     0 < buffer_length mrrb \<and> length (buffer mrrb) = buffer_length mrrb \<and>
     i < length (readers mrrb) \<and>
     overrun_policy (readers mrrb ! i) = MRRB_READER_OVERRUN_BLOCKING \<and>
     ongoing_writes mrrb = 0 \<and>
     write_ptr mrrb = length s mod buffer_length mrrb \<and>
     reservation_ptr mrrb = length s mod buffer_length mrrb \<and>
     (if status (readers mrrb ! i) = MRRB_READER_STATUS_IDLE
      then d = s \<and> read_complete_ptr (readers mrrb ! i) = length s mod buffer_length mrrb \<and>
           \<not> is_full (readers mrrb ! i)
      else status (readers mrrb ! i) = MRRB_READER_STATUS_ACTIVE \<and>
           (\<exists>c. c < length d \<and> length d \<le> length s \<and> length s \<le> c + buffer_length mrrb \<and>
                read_complete_ptr (readers mrrb ! i) = c mod buffer_length mrrb \<and>
                read_ptr (readers mrrb ! i) = length d mod buffer_length mrrb \<and>
                d = take (length d) s \<and>
                (is_full (readers mrrb ! i) \<longleftrightarrow> length s = c + buffer_length mrrb) \<and>
                (\<forall>p. c \<le> p \<and> p < length s \<longrightarrow>
                     buffer mrrb ! (p mod buffer_length mrrb) = s ! p)))"

text \<open>Sample states and call sequences for the delivery to a BLOCKING reader.\<close>

definition two_mrrb :: multi_reader_ring_buffer_t where
  "two_mrrb = new_mrrb 4 [new_reader 1 MRRB_READER_OVERRUN_BLOCKING 0,
                          new_reader 2 MRRB_READER_OVERRUN_BLOCKING 0]"

definition pending_calls :: "mrrb_call list" where
  "pending_calls = [Write [1, 2, 3], Write [4]]"

definition drain_calls :: "mrrb_call list" where
  "drain_calls = [Write [1, 2, 3], Write [4], Read_complete 1, Read_complete 1]"

definition duplicate_calls :: "mrrb_call list" where
  "duplicate_calls = [Write [1, 2, 3, 4], Read_complete 1, Write [5]]"

section \<open>Properties\<close>

subsection \<open>Evaluation of the sample states\<close>

lemmas eval_defs = mrrb_write_def mrrb_write_reserve_def write_length_choice_def
  mrrb_write_copy_def
  mrrb_write_publish_def mrrb_get_remaining_space_def mrrb_get_overwritable_space_def
  mrrb_clear_overrun_space_def clear_overrun_reader_def update_full_flag_def
  publish_reader_def memcpy_def mrrb_reader_get_remaining_space_def
  mrrb_reader_get_overwritable_space_def mrrb_reader_get_continuous_readable_space_def
  mrrb_advance_pointer_def mrrb_read_complete_def mrrb_abort_complete_def
  mrrb_get_reader_by_handle_def port_ok_def NULL_def Let_def int_of_unsigned_def

lemma new_reader_simp:
  "new_reader h policy abort =
     (if policy = MRRB_READER_OVERRUN_SKIP \<and> abort = 0 then blank_reader
      else \<lparr>handle = h, overrun_policy = policy, read_ptr = 0, read_complete_ptr = 0,
            status = MRRB_READER_STATUS_IDLE, is_full = False, notify_data = 1,
            abort_data = abort\<rparr>)"
  by (simp add: new_reader_def mrrb_reader_init_def blank_reader_def NULL_def)

lemma blocking_mrrb_eq:
  "blocking_mrrb =
     \<lparr>buffer = [0, 0, 0, 0], buffer_length = 4,
      readers = [\<lparr>handle = 1, overrun_policy = MRRB_READER_OVERRUN_BLOCKING, read_ptr = 0,
                 read_complete_ptr = 0, status = MRRB_READER_STATUS_IDLE, is_full = False,
                 notify_data = 1, abort_data = 0\<rparr>],
      write_ptr = 0, reservation_ptr = 0, ongoing_writes = 0\<rparr>"
  by (simp add: blocking_mrrb_def new_mrrb_def mrrb_init_def Let_def blank_mrrb_def
      init_reader_def new_reader_simp numeral_eq_Suc)

lemma skip_mrrb_eq:
  "skip_mrrb =
     \<lparr>buffer = [0, 0, 0, 0], buffer_length = 4,
      readers = [\<lparr>handle = 1, overrun_policy = MRRB_READER_OVERRUN_SKIP, read_ptr = 0,
                 read_complete_ptr = 0, status = MRRB_READER_STATUS_IDLE, is_full = False,
                 notify_data = 1, abort_data = 1\<rparr>],
      write_ptr = 0, reservation_ptr = 0, ongoing_writes = 0\<rparr>"
  by (simp add: skip_mrrb_def new_mrrb_def mrrb_init_def Let_def blank_mrrb_def
      init_reader_def new_reader_simp numeral_eq_Suc)

lemma aborting_mrrb_eq:
  "aborting_mrrb =
     \<lparr>buffer = [5, 6, 7, 4], buffer_length = 4,
      readers = [\<lparr>handle = 1, overrun_policy = MRRB_READER_OVERRUN_SKIP, read_ptr = 2,
                 read_complete_ptr = 3, status = MRRB_READER_STATUS_ABORTING, is_full = True,
                 notify_data = 1, abort_data = 1\<rparr>],
      write_ptr = 3, reservation_ptr = 3, ongoing_writes = 0\<rparr>"
  by (simp add: aborting_mrrb_def skip_mrrb_eq eval_defs)

lemma active_mrrb_eq:
  "active_mrrb =
     \<lparr>buffer = [1, 2, 3, 0], buffer_length = 4, readers = [active_reader],
      write_ptr = 3, reservation_ptr = 3, ongoing_writes = 0\<rparr>"
  by (simp add: active_mrrb_def active_reader_def blocking_mrrb_eq eval_defs)

lemma full_mrrb_eq:
  "full_mrrb =
     \<lparr>buffer = [1, 2, 3, 4], buffer_length = 4,
      readers = [\<lparr>handle = 1, overrun_policy = MRRB_READER_OVERRUN_BLOCKING, read_ptr = 0,
                 read_complete_ptr = 0, status = MRRB_READER_STATUS_ACTIVE, is_full = True,
                 notify_data = 1, abort_data = 0\<rparr>],
      write_ptr = 0, reservation_ptr = 0, ongoing_writes = 0\<rparr>"
  by (simp add: full_mrrb_def blocking_mrrb_eq eval_defs)



lemma null_handle_mrrb_eq:
  "null_handle_mrrb =
     \<lparr>buffer = [1, 2, 3, 0], buffer_length = 4,
      readers = [\<lparr>handle = 0, overrun_policy = MRRB_READER_OVERRUN_BLOCKING, read_ptr = 3,
                 read_complete_ptr = 0, status = MRRB_READER_STATUS_ACTIVE, is_full = False,
                 notify_data = 1, abort_data = 0\<rparr>],
      write_ptr = 3, reservation_ptr = 3, ongoing_writes = 0\<rparr>"
proof -
  have "new_mrrb 4 [new_reader NULL MRRB_READER_OVERRUN_BLOCKING 0] =
     \<lparr>buffer = [0, 0, 0, 0], buffer_length = 4,
      readers = [\<lparr>handle = 0, overrun_policy = MRRB_READER_OVERRUN_BLOCKING, read_ptr = 0,
                 read_complete_ptr = 0, status = MRRB_READER_STATUS_IDLE, is_full = False,
                 notify_data = 1, abort_data = 0\<rparr>],
      write_ptr = 0, reservation_ptr = 0, ongoing_writes = 0\<rparr>"
    by (simp add: new_mrrb_def mrrb_init_def Let_def blank_mrrb_def init_reader_def
        new_reader_simp numeral_eq_Suc NULL_def)
  then show ?thesis by (simp add: null_handle_mrrb_def eval_defs)
qed

lemma null_handle_aborting_mrrb_eq:
  "null_handle_aborting_mrrb =
     \<lparr>buffer = [5, 6, 7, 4], buffer_length = 4,
      readers = [\<lparr>handle = 0, overrun_policy = MRRB_READER_OVERRUN_SKIP, read_ptr = 2,
                 read_complete_ptr = 3, status = MRRB_READER_STATUS_ABORTING, is_full = True,
                 notify_data = 1, abort_data = 1\<rparr>],
      write_ptr = 3, reservation_ptr = 3, ongoing_writes = 0\<rparr>"
proof -
  have "new_mrrb 4 [new_reader NULL MRRB_READER_OVERRUN_SKIP 1] =
     \<lparr>buffer = [0, 0, 0, 0], buffer_length = 4,
      readers = [\<lparr>handle = 0, overrun_policy = MRRB_READER_OVERRUN_SKIP, read_ptr = 0,
                 read_complete_ptr = 0, status = MRRB_READER_STATUS_IDLE, is_full = False,
                 notify_data = 1, abort_data = 1\<rparr>],
      write_ptr = 0, reservation_ptr = 0, ongoing_writes = 0\<rparr>"
    by (simp add: new_mrrb_def mrrb_init_def Let_def blank_mrrb_def init_reader_def
        new_reader_simp numeral_eq_Suc NULL_def)
  then show ?thesis by (simp add: null_handle_aborting_mrrb_def eval_defs)
qed

subsection \<open>Initialisation\<close>

text \<open>
  C10. After a successful \<^verbatim>\<open>mrrb_init\<close> (return value 0) the write pointer and the
  reservation pointer are at the start of the supplied buffer (offset 0), \<open>ongoing_writes\<close>
  is 0, and every reader of the supplied array is IDLE with both cursors at the buffer start
  and \<open>is_full\<close> cleared, whatever its state and cursors were before the call; its other
  fields are kept.
\<close>

theorem mrrb_init_success:
  assumes "mrrb_init lock_init_ok mrrb buf n rs = (0, mrrb')"
  shows "write_ptr mrrb' = 0 \<and> reservation_ptr mrrb' = 0 \<and> ongoing_writes mrrb' = 0 \<and>
         (\<exists>b rdrs. buf = Some b \<and> rs = Some rdrs \<and> buffer mrrb' = b \<and>
            buffer_length mrrb' = n \<and> length (readers mrrb') = length rdrs \<and>
            (\<forall>i < length rdrs.
               readers mrrb' ! i =
                 (rdrs ! i)\<lparr>status := MRRB_READER_STATUS_IDLE, read_ptr := 0,
                             read_complete_ptr := 0, is_full := False\<rparr>))"
  using assms
  by (auto simp: mrrb_init_def init_reader_def Let_def split: option.splits if_splits)

theorem mrrb_init_success_witness:
  "mrrb_init True blank_mrrb (Some [0, 0, 0, 0]) 4 (Some [used_reader]) =
     (0, \<lparr>buffer = [0, 0, 0, 0], buffer_length = 4,
          readers = [used_reader\<lparr>status := MRRB_READER_STATUS_IDLE, read_ptr := 0,
                                  read_complete_ptr := 0, is_full := False\<rparr>],
          write_ptr = 0, reservation_ptr = 0, ongoing_writes = 0\<rparr>)"
proof -
  have e: "mrrb_init True blank_mrrb (Some [0, 0, 0, 0]) 4 (Some [used_reader]) =
     (0, snd (mrrb_init True blank_mrrb (Some [0, 0, 0, 0]) 4 (Some [used_reader])))"
    by (simp add: mrrb_init_def Let_def)
  from mrrb_init_success [OF e] show ?thesis
    by (simp add: mrrb_init_def Let_def init_reader_def blank_mrrb_def)
qed

subsection \<open>Enabling a reader\<close>

text \<open>
  C9 as stated fails: \<^verbatim>\<open>mrrb_reader_enable\<close> returns 0 for a reader that is ACTIVE and
  leaves it as it is, so the reader is not IDLE and its \<open>read_complete_ptr\<close> is not the
  reservation pointer. The state is the one after writing three bytes to a fresh MRRB.
\<close>

theorem mrrb_reader_enable_active_counterexample:
  "readers active_mrrb = [active_reader] \<and>
   mrrb_reader_enable True active_mrrb (Some active_reader) = (0, Some active_reader) \<and>
   status active_reader = MRRB_READER_STATUS_ACTIVE \<and>
   read_complete_ptr active_reader \<noteq> reservation_ptr active_mrrb"
  by (simp add: active_mrrb_eq mrrb_reader_enable_def active_reader_def)

text \<open>
  C9, amended. Whenever \<^verbatim>\<open>mrrb_reader_enable\<close> returns 0 for a reader that was DISABLED
  or DISABLING, the reader's \<open>read_ptr\<close> and \<open>read_complete_ptr\<close> both equal the MRRB's
  current reservation pointer, its \<open>is_full\<close> flag is cleared and its state is IDLE (its
  other fields are kept); a reader in any other state is left unchanged.
\<close>

theorem mrrb_reader_enable_returns_0:
  assumes "mrrb_reader_enable lock_ok mrrb p = (0, p')"
  shows "\<exists>reader reader'. p = Some reader \<and> p' = Some reader' \<and>
           (if status reader = MRRB_READER_STATUS_DISABLED \<or>
               status reader = MRRB_READER_STATUS_DISABLING
            then read_ptr reader' = reservation_ptr mrrb \<and>
                 read_complete_ptr reader' = reservation_ptr mrrb \<and>
                 \<not> is_full reader' \<and> status reader' = MRRB_READER_STATUS_IDLE \<and>
                 reader' = reader\<lparr>status := MRRB_READER_STATUS_IDLE, is_full := False,
                                    read_ptr := reservation_ptr mrrb,
                                    read_complete_ptr := reservation_ptr mrrb\<rparr>
            else reader' = reader)"
  using assms
  by (auto simp: mrrb_reader_enable_def split: option.splits if_splits)

theorem mrrb_reader_enable_returns_0_witness:
  "mrrb_reader_enable True active_mrrb
     (Some (active_reader\<lparr>status := MRRB_READER_STATUS_DISABLING\<rparr>)) =
   (0, Some (active_reader\<lparr>status := MRRB_READER_STATUS_IDLE, is_full := False,
                             read_ptr := 3, read_complete_ptr := 3\<rparr>))"
proof -
  let ?r = "active_reader\<lparr>status := MRRB_READER_STATUS_DISABLING\<rparr>"
  have e: "mrrb_reader_enable True active_mrrb (Some ?r) =
           (0, snd (mrrb_reader_enable True active_mrrb (Some ?r)))"
    by (simp add: mrrb_reader_enable_def)
  from mrrb_reader_enable_returns_0 [OF e] show ?thesis
    by (simp add: mrrb_reader_enable_def active_mrrb_eq)
qed

subsection \<open>Space queries\<close>

lemma remaining_space_loop_Min:
  "remaining_space_loop mrrb rs acc =
     Min (insert acc (mrrb_reader_get_remaining_space mrrb ` set rs))"
proof (induction rs arbitrary: acc)
  case Nil
  then show ?case by simp
next
  case (Cons r rs)
  have "Min (insert acc (insert (mrrb_reader_get_remaining_space mrrb r)
               (mrrb_reader_get_remaining_space mrrb ` set rs))) =
        Min (insert (min (mrrb_reader_get_remaining_space mrrb r) acc)
               (mrrb_reader_get_remaining_space mrrb ` set rs))"
    by (cases "set rs = {}") (simp_all add: min.commute min.left_commute min.assoc)
  then show ?case
    by (simp add: Cons.IH Let_def min_def not_less)
qed

lemma forward_distance_code:
  assumes "a < n" and "b < n"
  shows "forward_distance n a b = (if b > a then b - a else n - (a - b))"
proof (cases "b > a")
  case True
  then have "(b + n - a) mod n = b - a"
    using assms by (simp add: mod_if)
  with True assms show ?thesis by (simp add: forward_distance_def)
next
  case False
  show ?thesis
  proof (cases "a = b")
    case True
    then show ?thesis using assms by (simp add: forward_distance_def)
  next
    case ne: False
    with False assms have lt: "b + n - a < n" and pos: "b + n - a \<noteq> 0" by arith+
    from lt have "(b + n - a) mod n = b + n - a" by simp
    moreover have "b + n - a = n - (a - b)" using False ne assms by arith
    ultimately show ?thesis using False pos by (simp add: forward_distance_def)
  qed
qed

lemma reader_space_code:
  assumes "reservation_ptr mrrb < buffer_length mrrb"
    and "read_complete_ptr reader < buffer_length mrrb"
  shows "mrrb_reader_get_remaining_space mrrb reader = reader_space mrrb reader"
  using assms
  by (simp add: mrrb_reader_get_remaining_space_def reader_space_def forward_distance_code)

lemma reader_space_le:
  assumes "reservation_ptr mrrb < buffer_length mrrb"
    and "read_complete_ptr reader < buffer_length mrrb"
  shows "reader_space mrrb reader \<le> buffer_length mrrb"
  using assms by (auto simp: reader_space_def forward_distance_code)

text \<open>
  C8. For an MRRB with at least one reader whose reservation pointer and read-complete
  pointers lie in the buffer, \<^verbatim>\<open>mrrb_get_remaining_space\<close> returns the minimum over all
  readers of the reader's space, where a DISABLED or DISABLING reader contributes the buffer
  length, a reader with \<open>is_full\<close> set contributes 0 and any other reader the forward modular
  distance from the reservation pointer to its \<open>read_complete_ptr\<close> (\<open>reader_space\<close>);
  and \<^verbatim>\<open>mrrb_is_empty\<close> returns 1 exactly when this minimum is the buffer length, and 0
  otherwise.
\<close>

theorem remaining_space_minimum:
  assumes "reservation_ptr mrrb < buffer_length mrrb"
    and "\<forall>reader \<in> set (readers mrrb). read_complete_ptr reader < buffer_length mrrb"
    and "readers mrrb \<noteq> []"
  shows "mrrb_get_remaining_space (Some mrrb) = Min (reader_space mrrb ` set (readers mrrb)) \<and>
         mrrb_is_empty (Some mrrb) =
           (if Min (reader_space mrrb ` set (readers mrrb)) = buffer_length mrrb then 1 else 0)"
proof -
  let ?S = "reader_space mrrb ` set (readers mrrb)"
  have eq: "mrrb_reader_get_remaining_space mrrb ` set (readers mrrb) = ?S"
    using assms(1,2) by (intro image_cong refl) (simp add: reader_space_code)
  have ne: "?S \<noteq> {}" and fin: "finite ?S"
    using assms(3) by simp_all
  have "\<forall>s \<in> ?S. s \<le> buffer_length mrrb"
    using assms(1,2) by (auto simp: reader_space_le)
  then have "Min ?S \<le> buffer_length mrrb"
    using ne fin by (meson Min_in)
  then have "Min (insert (buffer_length mrrb) ?S) = Min ?S"
    using ne fin by (simp add: min_absorb2)
  then have "mrrb_get_remaining_space (Some mrrb) = Min ?S"
    by (simp add: mrrb_get_remaining_space_def remaining_space_loop_Min eq)
  then show ?thesis
    by (simp add: mrrb_is_empty_def)
qed

theorem remaining_space_minimum_witness:
  "mrrb_get_remaining_space (Some active_mrrb) = 1 \<and> mrrb_is_empty (Some active_mrrb) = 0"
proof -
  have 1: "reservation_ptr active_mrrb < buffer_length active_mrrb"
    by (simp add: active_mrrb_eq)
  have 2: "\<forall>reader \<in> set (readers active_mrrb).
             read_complete_ptr reader < buffer_length active_mrrb"
    by (simp add: active_mrrb_eq active_reader_def)
  have 3: "readers active_mrrb \<noteq> []" by (simp add: active_mrrb_eq)
  have "Min (reader_space active_mrrb ` set (readers active_mrrb)) = 1"
    by (simp add: active_mrrb_eq active_reader_def reader_space_def forward_distance_def)
  with remaining_space_minimum [OF 1 2 3] show ?thesis by (simp add: active_mrrb_eq)
qed

text \<open>
  C7. The claim asks for 1 whenever a reader that is neither DISABLED nor DISABLING has
  \<open>is_full\<close> set. After writing 2, 2 and 3 bytes to a fresh 4-byte MRRB with one SKIP
  reader that never completes, the reader is ABORTING with \<open>is_full\<close> set and no space
  remains, and \<^verbatim>\<open>mrrb_is_full\<close> returns 0.
\<close>

theorem mrrb_is_full_aborting_reader:
  "mrrb_is_full (Some aborting_mrrb) = 0 \<and>
   mrrb_get_remaining_space (Some aborting_mrrb) = 0 \<and>
   map status (readers aborting_mrrb) = [MRRB_READER_STATUS_ABORTING] \<and>
   map is_full (readers aborting_mrrb) = [True]"
  by (simp add: aborting_mrrb_eq mrrb_is_full_def mrrb_get_remaining_space_def
      mrrb_reader_get_remaining_space_def)

subsection \<open>Completion\<close>

lemma get_reader_from_None:
  "get_reader_from k rs h = None \<longleftrightarrow> (\<forall>reader \<in> set rs. handle reader \<noteq> h)"
  by (induction rs arbitrary: k) auto

lemma get_reader_from_first:
  assumes "i < length rs" and "handle (rs ! i) = h" and "\<forall>j < i. handle (rs ! j) \<noteq> h"
  shows "get_reader_from k rs h = Some (k + i)"
  using assms
proof (induction rs arbitrary: k i)
  case Nil
  then show ?case by simp
next
  case (Cons r rs)
  show ?case
  proof (cases i)
    case 0
    with Cons.prems show ?thesis by simp
  next
    case (Suc i')
    with Cons.prems have "handle r \<noteq> h" by auto
    moreover have "get_reader_from (Suc k) rs h = Some (Suc k + i')"
      using Cons.prems Suc by (intro Cons.IH) auto
    ultimately show ?thesis using Suc by simp
  qed
qed

text \<open>
  C4 as stated fails. The claim has an ACTIVE reader completed on every call. When
  \<^verbatim>\<open>_mrrb_lock\<close> fails, \<^verbatim>\<open>mrrb_read_complete\<close> returns without touching the located
  reader: the reader of \<open>active_mrrb\<close> stays ACTIVE, its \<open>read_complete_ptr\<close> stays behind
  its \<open>read_ptr\<close>, and no callback is made. The same happens, with the lock acquired, to an
  ACTIVE reader whose handle is \<open>NULL\<close>: the argument check returns first.
\<close>

theorem mrrb_read_complete_early_return_counterexample:
  "readers active_mrrb = [active_reader] \<and> handle active_reader = 1 \<and>
   status active_reader = MRRB_READER_STATUS_ACTIVE \<and>
   read_complete_ptr active_reader \<noteq> read_ptr active_reader \<and>
   mrrb_read_complete False active_mrrb 1 = (active_mrrb, []) \<and>
   handle (readers null_handle_mrrb ! 0) = NULL \<and>
   status (readers null_handle_mrrb ! 0) = MRRB_READER_STATUS_ACTIVE \<and>
   read_complete_ptr (readers null_handle_mrrb ! 0) \<noteq> read_ptr (readers null_handle_mrrb ! 0) \<and>
   mrrb_read_complete True null_handle_mrrb NULL = (null_handle_mrrb, [])"
  by (simp add: active_mrrb_eq active_reader_def null_handle_mrrb_eq mrrb_read_complete_def
      mrrb_get_reader_by_handle_def NULL_def)

text \<open>
  C4, amended. With a \<open>NULL\<close> handle, or when the lock is not acquired,
  \<^verbatim>\<open>mrrb_read_complete\<close> changes nothing and makes no callback. For a non-null handle and
  with the lock acquired, it locates the reader by its handle (the first reader of the array
  with that handle). It changes nothing and makes no callback when no reader has the handle or
  the located reader is not ACTIVE. When the reader is ACTIVE it sets \<open>read_complete_ptr\<close>
  to \<open>read_ptr\<close> and clears \<open>is_full\<close>; then, when the continuous readable span is
  positive, it advances \<open>read_ptr\<close> by the span, keeps the reader ACTIVE and calls the notify
  callback with the span, and otherwise sets the reader IDLE and makes no callback. Nothing
  else of the MRRB changes.
\<close>

theorem mrrb_read_complete_transitions:
  "(reader_handle = NULL \<or> \<not> lock_ok \<longrightarrow>
      mrrb_read_complete lock_ok mrrb reader_handle = (mrrb, [])) \<and>
   (reader_handle \<noteq> NULL \<and> lock_ok \<longrightarrow>
        ((\<forall>reader \<in> set (readers mrrb). handle reader \<noteq> reader_handle) \<longrightarrow>
            mrrb_read_complete lock_ok mrrb reader_handle = (mrrb, [])) \<and>
         (\<forall>i. i < length (readers mrrb) \<and> handle (readers mrrb ! i) = reader_handle \<and>
              (\<forall>j < i. handle (readers mrrb ! j) \<noteq> reader_handle) \<longrightarrow>
            mrrb_read_complete lock_ok mrrb reader_handle =
              (let reader = readers mrrb ! i;
                   completed = reader\<lparr>is_full := False, read_complete_ptr := read_ptr reader\<rparr>;
                   span = mrrb_reader_get_continuous_readable_space mrrb completed
               in if status reader \<noteq> MRRB_READER_STATUS_ACTIVE then (mrrb, [])
                  else if span > 0
                  then (mrrb\<lparr>readers := (readers mrrb)
                           [i := completed\<lparr>read_ptr :=
                                   mrrb_advance_pointer mrrb (read_ptr reader) span\<rparr>]\<rparr>,
                        [Notify_data i reader_handle (read_ptr reader) span])
                  else (mrrb\<lparr>readers := (readers mrrb)
                           [i := completed\<lparr>status := MRRB_READER_STATUS_IDLE\<rparr>]\<rparr>, []))))"
  (is "?early \<and> ?located")
proof (rule conjI)
  show ?early by (auto simp: mrrb_read_complete_def split: option.splits)
next
  show ?located
  proof (intro conjI allI impI)
  assume "reader_handle \<noteq> NULL \<and> lock_ok"
  assume "\<forall>reader \<in> set (readers mrrb). handle reader \<noteq> reader_handle"
  then have "mrrb_get_reader_by_handle mrrb reader_handle = None"
    by (simp add: mrrb_get_reader_by_handle_def get_reader_from_None)
  then show "mrrb_read_complete lock_ok mrrb reader_handle = (mrrb, [])"
    by (simp add: mrrb_read_complete_def)
next
  fix i
  assume assms: "reader_handle \<noteq> NULL \<and> lock_ok"
  assume "i < length (readers mrrb) \<and> handle (readers mrrb ! i) = reader_handle \<and>
          (\<forall>j < i. handle (readers mrrb ! j) \<noteq> reader_handle)"
  then have found: "mrrb_get_reader_by_handle mrrb reader_handle = Some i"
    and h: "handle (readers mrrb ! i) = reader_handle"
    using get_reader_from_first [of i "readers mrrb" reader_handle 0]
    by (simp_all add: mrrb_get_reader_by_handle_def)
  show "mrrb_read_complete lock_ok mrrb reader_handle =
              (let reader = readers mrrb ! i;
                   completed = reader\<lparr>is_full := False, read_complete_ptr := read_ptr reader\<rparr>;
                   span = mrrb_reader_get_continuous_readable_space mrrb completed
               in if status reader \<noteq> MRRB_READER_STATUS_ACTIVE then (mrrb, [])
                  else if span > 0
                  then (mrrb\<lparr>readers := (readers mrrb)
                           [i := completed\<lparr>read_ptr :=
                                   mrrb_advance_pointer mrrb (read_ptr reader) span\<rparr>]\<rparr>,
                        [Notify_data i reader_handle (read_ptr reader) span])
                  else (mrrb\<lparr>readers := (readers mrrb)
                           [i := completed\<lparr>status := MRRB_READER_STATUS_IDLE\<rparr>]\<rparr>, []))"
    using assms found h by (simp add: mrrb_read_complete_def Let_def)
  qed
qed

theorem mrrb_read_complete_transitions_witness:
  "mrrb_read_complete False full_mrrb 1 = (full_mrrb, []) \<and>
   mrrb_read_complete True active_mrrb 1 =
     (active_mrrb\<lparr>readers := [active_reader\<lparr>read_complete_ptr := 3,
                                status := MRRB_READER_STATUS_IDLE\<rparr>]\<rparr>, [])"
proof -
  have 0: "mrrb_read_complete False full_mrrb 1 = (full_mrrb, [])"
    using mrrb_read_complete_transitions
      [where reader_handle = 1 and lock_ok = False and mrrb = full_mrrb] by simp
  have 1: "(1::nat) \<noteq> NULL \<and> True" by (simp add: NULL_def)
  have 2: "0 < length (readers active_mrrb) \<and> handle (readers active_mrrb ! 0) = 1 \<and>
           (\<forall>j < 0. handle (readers active_mrrb ! j) \<noteq> 1)"
    by (simp add: active_mrrb_eq active_reader_def)
  from mrrb_read_complete_transitions
    [where reader_handle = 1 and lock_ok = True and mrrb = active_mrrb] 1 2
  have "mrrb_read_complete True active_mrrb 1 =
        (let reader = readers active_mrrb ! 0;
                   completed = reader\<lparr>is_full := False, read_complete_ptr := read_ptr reader\<rparr>;
                   span = mrrb_reader_get_continuous_readable_space active_mrrb completed
               in if status reader \<noteq> MRRB_READER_STATUS_ACTIVE then (active_mrrb, [])
                  else if span > 0
                  then (active_mrrb\<lparr>readers := (readers active_mrrb)
                           [0 := completed\<lparr>read_ptr :=
                                   mrrb_advance_pointer active_mrrb (read_ptr reader) span\<rparr>]\<rparr>,
                        [Notify_data 0 1 (read_ptr reader) span])
                  else (active_mrrb\<lparr>readers := (readers active_mrrb)
                           [0 := completed\<lparr>status := MRRB_READER_STATUS_IDLE\<rparr>]\<rparr>, []))"
    by blast
  then show ?thesis using 0
    by (simp add: active_mrrb_eq active_reader_def
        mrrb_reader_get_continuous_readable_space_def Let_def)
qed

text \<open>
  C5 as stated fails. The claim has an ABORTING reader become ACTIVE or ABORTED on every
  call. When \<^verbatim>\<open>_mrrb_lock\<close> fails, \<^verbatim>\<open>mrrb_abort_complete\<close> returns without touching the
  located reader: the reader of \<open>aborting_mrrb\<close> stays ABORTING and no callback is made. The
  same happens, with the lock acquired, to an ABORTING reader whose handle is \<open>NULL\<close>: the
  argument check returns first.
\<close>

theorem mrrb_abort_complete_early_return_counterexample:
  "handle (readers aborting_mrrb ! 0) = 1 \<and>
   status (readers aborting_mrrb ! 0) = MRRB_READER_STATUS_ABORTING \<and>
   mrrb_abort_complete False aborting_mrrb 1 = (aborting_mrrb, []) \<and>
   handle (readers null_handle_aborting_mrrb ! 0) = NULL \<and>
   status (readers null_handle_aborting_mrrb ! 0) = MRRB_READER_STATUS_ABORTING \<and>
   mrrb_abort_complete True null_handle_aborting_mrrb NULL = (null_handle_aborting_mrrb, [])"
  by (simp add: aborting_mrrb_eq null_handle_aborting_mrrb_eq mrrb_abort_complete_def
      mrrb_get_reader_by_handle_def NULL_def)

text \<open>
  C5, amended. With a \<open>NULL\<close> handle, or when the lock is not acquired,
  \<^verbatim>\<open>mrrb_abort_complete\<close> changes nothing and makes no callback. For a non-null handle
  and with the lock acquired, it turns a DISABLING reader into a DISABLED one; an ABORTING
  reader becomes ACTIVE and is notified again (with its continuous readable span, \<open>read_ptr\<close>
  advanced by it) if and only if the span is positive and \<open>ongoing_writes\<close> is 0, and
  becomes ABORTED otherwise; a reader in any other state and a handle that no reader has
  cause no change and no callback.
\<close>

theorem mrrb_abort_complete_transitions:
  "(reader_handle = NULL \<or> \<not> lock_ok \<longrightarrow>
      mrrb_abort_complete lock_ok mrrb reader_handle = (mrrb, [])) \<and>
   (reader_handle \<noteq> NULL \<and> lock_ok \<longrightarrow>
        ((\<forall>reader \<in> set (readers mrrb). handle reader \<noteq> reader_handle) \<longrightarrow>
            mrrb_abort_complete lock_ok mrrb reader_handle = (mrrb, [])) \<and>
         (\<forall>i. i < length (readers mrrb) \<and> handle (readers mrrb ! i) = reader_handle \<and>
              (\<forall>j < i. handle (readers mrrb ! j) \<noteq> reader_handle) \<longrightarrow>
            mrrb_abort_complete lock_ok mrrb reader_handle =
              (let reader = readers mrrb ! i;
                   span = mrrb_reader_get_continuous_readable_space mrrb reader
               in if status reader = MRRB_READER_STATUS_DISABLING
                  then (mrrb\<lparr>readers := (readers mrrb)
                           [i := reader\<lparr>status := MRRB_READER_STATUS_DISABLED\<rparr>]\<rparr>, [])
                  else if status reader = MRRB_READER_STATUS_ABORTING
                  then if span > 0 \<and> ongoing_writes mrrb = 0
                       then (mrrb\<lparr>readers := (readers mrrb)
                                [i := reader\<lparr>read_ptr :=
                                        mrrb_advance_pointer mrrb (read_complete_ptr reader) span,
                                      status := MRRB_READER_STATUS_ACTIVE\<rparr>]\<rparr>,
                             [Notify_data i reader_handle (read_complete_ptr reader) span])
                       else (mrrb\<lparr>readers := (readers mrrb)
                                [i := reader\<lparr>status := MRRB_READER_STATUS_ABORTED\<rparr>]\<rparr>, [])
                  else (mrrb, []))))"
  (is "?early \<and> ?located")
proof (rule conjI)
  show ?early by (auto simp: mrrb_abort_complete_def split: option.splits)
next
  show ?located
  proof (intro conjI allI impI)
  assume "reader_handle \<noteq> NULL \<and> lock_ok"
  assume "\<forall>reader \<in> set (readers mrrb). handle reader \<noteq> reader_handle"
  then have "mrrb_get_reader_by_handle mrrb reader_handle = None"
    by (simp add: mrrb_get_reader_by_handle_def get_reader_from_None)
  then show "mrrb_abort_complete lock_ok mrrb reader_handle = (mrrb, [])"
    by (simp add: mrrb_abort_complete_def)
next
  fix i
  assume assms: "reader_handle \<noteq> NULL \<and> lock_ok"
  assume "i < length (readers mrrb) \<and> handle (readers mrrb ! i) = reader_handle \<and>
          (\<forall>j < i. handle (readers mrrb ! j) \<noteq> reader_handle)"
  then have found: "mrrb_get_reader_by_handle mrrb reader_handle = Some i"
    and h: "handle (readers mrrb ! i) = reader_handle"
    using get_reader_from_first [of i "readers mrrb" reader_handle 0]
    by (simp_all add: mrrb_get_reader_by_handle_def)
  show "mrrb_abort_complete lock_ok mrrb reader_handle =
              (let reader = readers mrrb ! i;
                   span = mrrb_reader_get_continuous_readable_space mrrb reader
               in if status reader = MRRB_READER_STATUS_DISABLING
                  then (mrrb\<lparr>readers := (readers mrrb)
                           [i := reader\<lparr>status := MRRB_READER_STATUS_DISABLED\<rparr>]\<rparr>, [])
                  else if status reader = MRRB_READER_STATUS_ABORTING
                  then if span > 0 \<and> ongoing_writes mrrb = 0
                       then (mrrb\<lparr>readers := (readers mrrb)
                                [i := reader\<lparr>read_ptr :=
                                        mrrb_advance_pointer mrrb (read_complete_ptr reader) span,
                                      status := MRRB_READER_STATUS_ACTIVE\<rparr>]\<rparr>,
                             [Notify_data i reader_handle (read_complete_ptr reader) span])
                       else (mrrb\<lparr>readers := (readers mrrb)
                                [i := reader\<lparr>status := MRRB_READER_STATUS_ABORTED\<rparr>]\<rparr>, [])
                  else (mrrb, []))"
    using assms found h by (simp add: mrrb_abort_complete_def Let_def)
  qed
qed

theorem mrrb_abort_complete_transitions_witness:
  "mrrb_abort_complete False overrun_mrrb 1 = (overrun_mrrb, []) \<and>
   mrrb_abort_complete True aborting_mrrb 1 =
     (aborting_mrrb\<lparr>readers :=
        [\<lparr>handle = 1, overrun_policy = MRRB_READER_OVERRUN_SKIP, read_ptr = 0,
          read_complete_ptr = 3, status = MRRB_READER_STATUS_ACTIVE, is_full = True,
          notify_data = 1, abort_data = 1\<rparr>]\<rparr>, [Notify_data 0 1 3 1])"
proof -
  have 0: "mrrb_abort_complete False overrun_mrrb 1 = (overrun_mrrb, [])"
    using mrrb_abort_complete_transitions
      [where reader_handle = 1 and lock_ok = False and mrrb = overrun_mrrb] by simp
  have 1: "(1::nat) \<noteq> NULL \<and> True" by (simp add: NULL_def)
  have 2: "0 < length (readers aborting_mrrb) \<and> handle (readers aborting_mrrb ! 0) = 1 \<and>
           (\<forall>j < 0. handle (readers aborting_mrrb ! j) \<noteq> 1)"
    by (simp add: aborting_mrrb_eq)
  from mrrb_abort_complete_transitions
    [where reader_handle = 1 and lock_ok = True and mrrb = aborting_mrrb] 1 2
  have "mrrb_abort_complete True aborting_mrrb 1 =
              (let reader = readers aborting_mrrb ! 0;
                   span = mrrb_reader_get_continuous_readable_space aborting_mrrb reader
               in if status reader = MRRB_READER_STATUS_DISABLING
                  then (aborting_mrrb\<lparr>readers := (readers aborting_mrrb)
                           [0 := reader\<lparr>status := MRRB_READER_STATUS_DISABLED\<rparr>]\<rparr>, [])
                  else if status reader = MRRB_READER_STATUS_ABORTING
                  then if span > 0 \<and> ongoing_writes aborting_mrrb = 0
                       then (aborting_mrrb\<lparr>readers := (readers aborting_mrrb)
                                [0 := reader\<lparr>read_ptr :=
                                        mrrb_advance_pointer aborting_mrrb (read_complete_ptr reader) span,
                                      status := MRRB_READER_STATUS_ACTIVE\<rparr>]\<rparr>,
                             [Notify_data 0 1 (read_complete_ptr reader) span])
                       else (aborting_mrrb\<lparr>readers := (readers aborting_mrrb)
                                [0 := reader\<lparr>status := MRRB_READER_STATUS_ABORTED\<rparr>]\<rparr>, [])
                  else (aborting_mrrb, []))"
    by blast
  then show ?thesis using 0
    by (simp add: aborting_mrrb_eq mrrb_advance_pointer_def
        mrrb_reader_get_continuous_readable_space_def Let_def)
qed

subsection \<open>Lock failures\<close>

text \<open>
  C2. A failure of the second lock of \<^verbatim>\<open>mrrb_write\<close> (after the data has been copied)
  makes it return -1 with its reservation in place and \<open>ongoing_writes\<close> incremented: here
  one byte is written to a fresh 4-byte MRRB, and afterwards the reservation pointer is 1, the
  write pointer still 0 and \<open>ongoing_writes\<close> 1.
\<close>

theorem mrrb_write_second_lock_failure:
  "mrrb_write (port_ok\<lparr>second_lock := False\<rparr>) blocking_mrrb (Some [1]) =
     (- 1, blocking_mrrb\<lparr>buffer := [1, 0, 0, 0], reservation_ptr := 1, ongoing_writes := 1\<rparr>, [])"
  by (simp add: blocking_mrrb_eq eval_defs)

subsection \<open>Notification lengths\<close>

lemma mrrb_write_with_nothing:
  "data \<noteq> [] \<Longrightarrow>
   mrrb_write_with (\<lambda>m. (m, [])) mrrb data = mrrb_write port_ok mrrb (Some data)"
  by (simp add: mrrb_write_with_def mrrb_write_def port_ok_def Let_def split: prod.splits)

text \<open>
  C6. A notify callback with length 0: the only reader of a 4-byte MRRB holds the whole
  buffer (4 bytes written, none completed). A write of one byte reserves nothing; between its
  two critical sections the reader calls \<^verbatim>\<open>mrrb_read_complete\<close> and becomes IDLE; the
  publish phase of the write then makes it ACTIVE and notifies it with 0 bytes.
\<close>

theorem mrrb_write_notifies_zero_bytes:
  "mrrb_write_with (\<lambda>m. mrrb_read_complete True m 1) full_mrrb [5] =
     (0, full_mrrb\<lparr>readers :=
           [\<lparr>handle = 1, overrun_policy = MRRB_READER_OVERRUN_BLOCKING, read_ptr = 0,
             read_complete_ptr = 0, status = MRRB_READER_STATUS_ACTIVE, is_full = False,
             notify_data = 1, abort_data = 0\<rparr>]\<rparr>,
      [Notify_data 0 1 0 0])"
  by (simp add: mrrb_write_with_def full_mrrb_eq eval_defs)

subsection \<open>Overrun clearing\<close>

lemma clear_overrun_loop_nth:
  assumes "clear_overrun_loop mrrb requested_space rs clear_space = (rs', clear_space', flags)"
    and "i < length rs"
  shows "rs' ! i = fst (clear_overrun_reader mrrb requested_space (rs ! i)) \<and>
         flags ! i = snd (snd (clear_overrun_reader mrrb requested_space (rs ! i))) \<and>
         (case fst (snd (clear_overrun_reader mrrb requested_space (rs ! i))) of
            None \<Rightarrow> True | Some s \<Rightarrow> clear_space' \<le> s) \<and>
         clear_space' \<le> clear_space \<and> length rs' = length rs \<and> length flags = length rs"
  using assms
proof (induction rs arbitrary: clear_space rs' clear_space' flags i)
  case Nil
  then show ?case by simp
next
  case (Cons r rs)
  obtain r' s f where body: "clear_overrun_reader mrrb requested_space r = (r', s, f)"
    by (cases "clear_overrun_reader mrrb requested_space r") auto
  define cs1 where "cs1 = (case s of None \<Rightarrow> clear_space
                           | Some v \<Rightarrow> if v < clear_space then v else clear_space)"
  obtain rs1 cs2 fs1 where rest: "clear_overrun_loop mrrb requested_space rs cs1 = (rs1, cs2, fs1)"
    by (cases "clear_overrun_loop mrrb requested_space rs cs1") auto
  from Cons.prems(1) body rest have res: "rs' = r' # rs1" "clear_space' = cs2" "flags = f # fs1"
    by (simp_all add: cs1_def)
  have cs1_le: "cs1 \<le> clear_space" and cs1_s: "case s of None \<Rightarrow> True | Some v \<Rightarrow> cs1 \<le> v"
    by (auto simp: cs1_def split: option.splits)
  have len: "length rs1 = length rs \<and> length fs1 = length rs \<and> cs2 \<le> cs1"
  proof (cases rs)
    case Nil
    with rest show ?thesis by simp
  next
    case (Cons a list)
    then have "0 < length rs" by simp
    from Cons.IH [OF rest this] show ?thesis by simp
  qed
  show ?case
  proof (cases i)
    case 0
    with res body len cs1_le cs1_s show ?thesis by (auto split: option.splits)
  next
    case (Suc j)
    with Cons.prems(2) have "j < length rs" by simp
    from Cons.IH [OF rest this] Suc res len cs1_le show ?thesis
      by (auto split: option.splits)
  qed
qed


lemma advance_pointer_mod:
  assumes "ptr < buffer_length mrrb" and "len \<le> buffer_length mrrb"
  shows "mrrb_advance_pointer mrrb ptr len = (ptr + len) mod buffer_length mrrb"
proof (cases "ptr < buffer_length mrrb - len")
  case True
  then show ?thesis by (simp add: mrrb_advance_pointer_def)
next
  case False
  with assms have "ptr + len - buffer_length mrrb < buffer_length mrrb"
    and "buffer_length mrrb \<le> ptr + len" by arith+
  then have "(ptr + len) mod buffer_length mrrb = ptr + len - buffer_length mrrb"
    by (metis le_mod_geq mod_less)
  with False assms show ?thesis by (simp add: mrrb_advance_pointer_def)
qed

lemma forward_distance_add:
  assumes "a < n" and "0 < x" and "x \<le> n"
  shows "forward_distance n a ((a + x) mod n) = x"
proof -
  have "((a + x) mod n + n - a) mod n = x mod n"
  proof (cases "a + x < n")
    case True
    then have "(a + x) mod n + n - a = x + n" by simp
    then show ?thesis by simp
  next
    case False
    then have "n \<le> a + x" and "a + x - n < n" using assms by simp_all
    then have "(a + x) mod n = a + x - n"
      by (metis le_mod_geq mod_less)
    then have "(a + x) mod n + n - a = x" using False by simp
    then show ?thesis by simp
  qed
  moreover have "x mod n = (if x = n then 0 else x)" using assms by simp
  ultimately show ?thesis using assms by (simp add: forward_distance_def)
qed









subsection \<open>Delivery to a BLOCKING reader\<close>

text \<open>
  The state between two calls is described by \<open>stream_inv\<close>; each of \<^verbatim>\<open>mrrb_write\<close>,
  \<^verbatim>\<open>mrrb_read_complete\<close> and \<^verbatim>\<open>mrrb_abort_complete\<close> keeps it, appending what it accepts to
  the stream and what it notifies to the delivered bytes.
\<close>

lemma mod_add_eq_self_iff:
  fixes n :: nat
  assumes "0 < y" and "y \<le> n"
  shows "((p + y) mod n = p mod n) = (y = n)"
proof
  assume "(p + y) mod n = p mod n"
  then have "n dvd (p + y) - p"
    by (metis le_add1 mod_eq_dvd_iff_nat)
  then have "n dvd y" by simp
  with assms show "y = n" by (meson dvd_imp_le le_antisym)
next
  assume "y = n"
  then show "(p + y) mod n = p mod n" by simp
qed

lemma wrap_add_mod:
  fixes n :: nat
  assumes "a < n" and "m \<le> n"
  shows "(if m \<ge> n - a then m - (n - a) else a + m) = (a + m) mod n"
proof (cases "m \<ge> n - a")
  case True
  then have "n \<le> a + m" and "a + m - n < n" using assms by simp_all
  then have "(a + m) mod n = a + m - n" by (metis le_mod_geq mod_less)
  with True assms show ?thesis by simp
next
  case False
  then show ?thesis by simp
qed

text \<open>span of a reader that has everything up to d and the stream at t\<close>
lemma span_value:
  fixes n :: nat
  assumes "0 < n" and "d \<le> t" and "t - d < n"
  shows "(if d mod n > t mod n then n - d mod n else t mod n - d mod n) =
         min (t - d) (n - d mod n)"
proof -
  define a where "a = d mod n"
  define y where "y = t - d"
  have a: "a < n" using assms by (simp add: a_def)
  have "t = d + y" using assms by (simp add: y_def)
  then have t: "t mod n = (a + y) mod n"
    by (simp add: a_def mod_add_left_eq)
  show ?thesis
  proof (cases "a + y < n")
    case True
    then show ?thesis unfolding t a_def [symmetric] y_def [symmetric] by simp
  next
    case False
    then have "n \<le> a + y" and "a + y - n < n" using a assms by (simp_all add: y_def)
    then have "(a + y) mod n = a + y - n" by (metis le_mod_geq mod_less)
    then show ?thesis unfolding t a_def [symmetric] y_def [symmetric]
      using False a assms(3) by (simp add: y_def [symmetric])
  qed
qed

lemma get_reader_from_Some:
  "get_reader_from k rs h = Some j \<Longrightarrow> k \<le> j \<and> j - k < length rs"
proof (induction rs arbitrary: k)
  case Nil
  then show ?case by simp
next
  case (Cons r rs)
  show ?case
  proof (cases "handle r = h")
    case True
    with Cons.prems show ?thesis by simp
  next
    case False
    with Cons.prems have "get_reader_from (Suc k) rs h = Some j" by simp
    from Cons.IH [OF this] show ?thesis by auto
  qed
qed

lemma mrrb_get_reader_by_handle_Some:
  "mrrb_get_reader_by_handle mrrb h = Some j \<Longrightarrow> j < length (readers mrrb)"
  using get_reader_from_Some [of 0 "readers mrrb" h j]
  by (simp add: mrrb_get_reader_by_handle_def)

text \<open>what an operation on another reader leaves of the invariant\<close>
lemma stream_inv_other_reader:
  assumes "stream_inv i mrrb s d" and "j \<noteq> i"
  shows "stream_inv i (mrrb\<lparr>readers := (readers mrrb)[j := r]\<rparr>) s d"
  using assms by (simp add: stream_inv_def)

lemma slice_of_stream:
  assumes "0 < n" and "length buf = n" and "d + k \<le> length s" and "d mod n + k \<le> n"
    and "\<forall>p. d \<le> p \<and> p < length s \<longrightarrow> buf ! (p mod n) = s ! p"
  shows "take k (drop (d mod n) buf) = take k (drop d s)"
proof (rule nth_equalityI)
  show "length (take k (drop (d mod n) buf)) = length (take k (drop d s))"
    using assms by simp
next
  fix x
  assume "x < length (take k (drop (d mod n) buf))"
  then have x: "x < k" by simp
  then have "d mod n + x < n" using assms(4) by simp
  then have "(d + x) mod n = d mod n + x"
    by (metis mod_add_left_eq mod_less)
  moreover have "buf ! ((d + x) mod n) = s ! (d + x)"
    using assms(3,5) x by simp
  ultimately show "take k (drop (d mod n) buf) ! x = take k (drop d s) ! x"
    using x assms by simp
qed


lemma stream_inv_activeI:
  assumes "0 < buffer_length mrrb" and "length (buffer mrrb) = buffer_length mrrb"
    and "i < length (readers mrrb)"
    and "overrun_policy (readers mrrb ! i) = MRRB_READER_OVERRUN_BLOCKING"
    and "ongoing_writes mrrb = 0"
    and "write_ptr mrrb = length s mod buffer_length mrrb"
    and "reservation_ptr mrrb = length s mod buffer_length mrrb"
    and "status (readers mrrb ! i) = MRRB_READER_STATUS_ACTIVE"
    and "c < length d" and "length d \<le> length s" and "length s \<le> c + buffer_length mrrb"
    and "read_complete_ptr (readers mrrb ! i) = c mod buffer_length mrrb"
    and "read_ptr (readers mrrb ! i) = length d mod buffer_length mrrb"
    and "d = take (length d) s"
    and "is_full (readers mrrb ! i) \<longleftrightarrow> length s = c + buffer_length mrrb"
    and "\<forall>p. c \<le> p \<and> p < length s \<longrightarrow> buffer mrrb ! (p mod buffer_length mrrb) = s ! p"
  shows "stream_inv i mrrb s d"
proof -
  have "\<exists>c. c < length d \<and> length d \<le> length s \<and> length s \<le> c + buffer_length mrrb \<and>
                read_complete_ptr (readers mrrb ! i) = c mod buffer_length mrrb \<and>
                read_ptr (readers mrrb ! i) = length d mod buffer_length mrrb \<and>
                d = take (length d) s \<and>
                (is_full (readers mrrb ! i) \<longleftrightarrow> length s = c + buffer_length mrrb) \<and>
                (\<forall>p. c \<le> p \<and> p < length s \<longrightarrow>
                     buffer mrrb ! (p mod buffer_length mrrb) = s ! p)"
    using assms(9-16) by blast
  then show ?thesis
    unfolding stream_inv_def using assms(1-8) by simp
qed

lemma stream_inv_idleI:
  assumes "0 < buffer_length mrrb" and "length (buffer mrrb) = buffer_length mrrb"
    and "i < length (readers mrrb)"
    and "overrun_policy (readers mrrb ! i) = MRRB_READER_OVERRUN_BLOCKING"
    and "ongoing_writes mrrb = 0"
    and "write_ptr mrrb = length s mod buffer_length mrrb"
    and "reservation_ptr mrrb = length s mod buffer_length mrrb"
    and "status (readers mrrb ! i) = MRRB_READER_STATUS_IDLE"
    and "d = s"
    and "read_complete_ptr (readers mrrb ! i) = length s mod buffer_length mrrb"
    and "\<not> is_full (readers mrrb ! i)"
  shows "stream_inv i mrrb s d"
  unfolding stream_inv_def using assms by simp

lemma stream_inv_global:
  assumes "stream_inv i mrrb s d"
  shows "0 < buffer_length mrrb" and "length (buffer mrrb) = buffer_length mrrb"
    and "i < length (readers mrrb)"
    and "overrun_policy (readers mrrb ! i) = MRRB_READER_OVERRUN_BLOCKING"
    and "ongoing_writes mrrb = 0"
    and "write_ptr mrrb = length s mod buffer_length mrrb"
    and "reservation_ptr mrrb = length s mod buffer_length mrrb"
    and "status (readers mrrb ! i) = MRRB_READER_STATUS_IDLE \<or>
         status (readers mrrb ! i) = MRRB_READER_STATUS_ACTIVE"
  using assms unfolding stream_inv_def by (simp_all split: if_splits)

lemma stream_inv_idleD:
  assumes "stream_inv i mrrb s d"
    and "status (readers mrrb ! i) = MRRB_READER_STATUS_IDLE"
  shows "d = s" and "read_complete_ptr (readers mrrb ! i) = length s mod buffer_length mrrb"
    and "\<not> is_full (readers mrrb ! i)"
  using assms unfolding stream_inv_def by simp_all

lemma stream_inv_activeE:
  assumes "stream_inv i mrrb s d"
    and "status (readers mrrb ! i) = MRRB_READER_STATUS_ACTIVE"
  obtains c where "c < length d" and "length d \<le> length s"
    and "length s \<le> c + buffer_length mrrb"
    and "read_complete_ptr (readers mrrb ! i) = c mod buffer_length mrrb"
    and "read_ptr (readers mrrb ! i) = length d mod buffer_length mrrb"
    and "d = take (length d) s"
    and "is_full (readers mrrb ! i) \<longleftrightarrow> length s = c + buffer_length mrrb"
    and "\<forall>p. c \<le> p \<and> p < length s \<longrightarrow> buffer mrrb ! (p mod buffer_length mrrb) = s ! p"
proof -
  from assms have "\<exists>c. c < length d \<and> length d \<le> length s \<and>
                length s \<le> c + buffer_length mrrb \<and>
                read_complete_ptr (readers mrrb ! i) = c mod buffer_length mrrb \<and>
                read_ptr (readers mrrb ! i) = length d mod buffer_length mrrb \<and>
                d = take (length d) s \<and>
                (is_full (readers mrrb ! i) \<longleftrightarrow> length s = c + buffer_length mrrb) \<and>
                (\<forall>p. c \<le> p \<and> p < length s \<longrightarrow>
                     buffer mrrb ! (p mod buffer_length mrrb) = s ! p)"
    unfolding stream_inv_def by simp
  then show thesis using that by blast
qed

lemma cont_readable_value:
  assumes "0 < buffer_length mrrb"
    and "write_ptr mrrb = t mod buffer_length mrrb"
    and "read_complete_ptr reader = d mod buffer_length mrrb"
    and "\<not> is_full reader" and "d \<le> t" and "t - d < buffer_length mrrb"
  shows "mrrb_reader_get_continuous_readable_space mrrb reader =
         min (t - d) (buffer_length mrrb - d mod buffer_length mrrb)"
  unfolding mrrb_reader_get_continuous_readable_space_def assms(2,3)
  using span_value [OF assms(1,5,6)] assms(4) by (simp split: if_splits)

lemma read_complete_result:
  obtains (unchanged) "mrrb_read_complete True mrrb h = (mrrb, [])"
  | (idle) j where "j < length (readers mrrb)"
      "status (readers mrrb ! j) = MRRB_READER_STATUS_ACTIVE"
      "mrrb_reader_get_continuous_readable_space mrrb
         ((readers mrrb ! j)\<lparr>is_full := False,
            read_complete_ptr := read_ptr (readers mrrb ! j)\<rparr>) = 0"
      "mrrb_read_complete True mrrb h =
         (mrrb\<lparr>readers := (readers mrrb)
            [j := (readers mrrb ! j)\<lparr>is_full := False,
                    read_complete_ptr := read_ptr (readers mrrb ! j),
                    status := MRRB_READER_STATUS_IDLE\<rparr>]\<rparr>, [])"
  | (renotify) j len where "j < length (readers mrrb)"
      "status (readers mrrb ! j) = MRRB_READER_STATUS_ACTIVE"
      "len = mrrb_reader_get_continuous_readable_space mrrb
         ((readers mrrb ! j)\<lparr>is_full := False,
            read_complete_ptr := read_ptr (readers mrrb ! j)\<rparr>)"
      "0 < len"
      "mrrb_read_complete True mrrb h =
         (mrrb\<lparr>readers := (readers mrrb)
            [j := (readers mrrb ! j)\<lparr>is_full := False,
                    read_complete_ptr := read_ptr (readers mrrb ! j),
                    read_ptr := mrrb_advance_pointer mrrb (read_ptr (readers mrrb ! j)) len\<rparr>]\<rparr>,
          [Notify_data j (handle (readers mrrb ! j)) (read_ptr (readers mrrb ! j)) len])"
proof (cases "h = NULL")
  case True
  then show ?thesis using unchanged by (simp add: mrrb_read_complete_def)
next
  case nn: False
  show ?thesis
  proof (cases "mrrb_get_reader_by_handle mrrb h")
    case None
    then show ?thesis using unchanged nn by (simp add: mrrb_read_complete_def)
  next
    case (Some j)
    then have j: "j < length (readers mrrb)" by (rule mrrb_get_reader_by_handle_Some)
    show ?thesis
    proof (cases "status (readers mrrb ! j) = MRRB_READER_STATUS_ACTIVE")
      case False
      then show ?thesis using unchanged nn Some by (simp add: mrrb_read_complete_def Let_def)
    next
      case act: True
      define len where "len = mrrb_reader_get_continuous_readable_space mrrb
         ((readers mrrb ! j)\<lparr>is_full := False,
            read_complete_ptr := read_ptr (readers mrrb ! j)\<rparr>)"
      show ?thesis
      proof (cases "0 < len")
        case True
        show ?thesis
          by (rule renotify [OF j act len_def True])
             (use nn Some act True in \<open>simp add: mrrb_read_complete_def Let_def len_def\<close>)
      next
        case False
        then have z: "mrrb_reader_get_continuous_readable_space mrrb
         ((readers mrrb ! j)\<lparr>is_full := False,
            read_complete_ptr := read_ptr (readers mrrb ! j)\<rparr>) = 0"
          by (simp add: len_def)
        show ?thesis
          by (rule idle [OF j act z])
             (use nn Some act z in \<open>simp add: mrrb_read_complete_def Let_def\<close>)
      qed
    qed
  qed
qed

lemma read_complete_inv:
  assumes inv: "stream_inv i mrrb s d"
    and rc: "mrrb_read_complete True mrrb h = (mrrb', cbs)"
  shows "stream_inv i mrrb' s (d @ notified i (buffer mrrb') cbs)"
  using read_complete_result [of mrrb h]
proof cases
  case unchanged
  with rc inv show ?thesis by simp
next
  case (idle j)
  show ?thesis
  proof (cases "j = i")
    case False
    with idle(4) rc inv show ?thesis by (auto intro: stream_inv_other_reader)
  next
    case True
    let ?n = "buffer_length mrrb"
    let ?r = "readers mrrb ! i"
    note g = stream_inv_global [OF inv]
    from idle(2) True have act: "status ?r = MRRB_READER_STATUS_ACTIVE" by simp
    from stream_inv_activeE [OF inv act] obtain c where c: "c < length d"
      "length d \<le> length s" "length s \<le> c + ?n" "read_ptr ?r = length d mod ?n"
      "d = take (length d) s" by blast
    have lt: "length s - length d < ?n" using c(1,2,3) by arith
    define r1 where "r1 = ?r\<lparr>is_full := False, read_complete_ptr := read_ptr ?r\<rparr>"
    have "mrrb_reader_get_continuous_readable_space mrrb r1 =
          min (length s - length d) (?n - length d mod ?n)"
      by (rule cont_readable_value [OF g(1) g(6) _ _ c(2) lt]) (simp_all add: r1_def c(4))
    with idle(3) True have "min (length s - length d) (?n - length d mod ?n) = 0"
      by (simp add: r1_def)
    moreover have "0 < ?n - length d mod ?n" using g(1) by simp
    ultimately have "length s - length d = 0" by (simp add: min_def split: if_splits)
    with c(2) have "length s = length d" by simp
    with c(5) have ds: "d = s" by simp
    have m': "mrrb' = mrrb\<lparr>readers := (readers mrrb)[i := r1\<lparr>status := MRRB_READER_STATUS_IDLE\<rparr>]\<rparr>"
      and cbs: "cbs = []"
      using idle(4) rc True by (simp_all add: r1_def)
    show ?thesis
      by (rule stream_inv_idleI)
         (use g ds c(4) in \<open>simp_all add: m' cbs r1_def\<close>)
  qed
next
  case (renotify j len)
  show ?thesis
  proof (cases "j = i")
    case False
    with renotify(5) rc inv show ?thesis by (auto intro: stream_inv_other_reader)
  next
    case True
    let ?n = "buffer_length mrrb"
    let ?r = "readers mrrb ! i"
    note g = stream_inv_global [OF inv]
    from renotify(2) True have act: "status ?r = MRRB_READER_STATUS_ACTIVE" by simp
    from stream_inv_activeE [OF inv act] obtain c where c: "c < length d"
      "length d \<le> length s" "length s \<le> c + ?n" "read_ptr ?r = length d mod ?n"
      "d = take (length d) s"
      "\<forall>p. c \<le> p \<and> p < length s \<longrightarrow> buffer mrrb ! (p mod ?n) = s ! p" by blast
    have lt: "length s - length d < ?n" using c(1,2,3) by arith
    define r1 where "r1 = ?r\<lparr>is_full := False, read_complete_ptr := read_ptr ?r\<rparr>"
    have "mrrb_reader_get_continuous_readable_space mrrb r1 =
          min (length s - length d) (?n - length d mod ?n)"
      by (rule cont_readable_value [OF g(1) g(6) _ _ c(2) lt]) (simp_all add: r1_def c(4))
    with renotify(3) True have len: "len = min (length s - length d) (?n - length d mod ?n)"
      by (simp add: r1_def)
    have le1: "len \<le> length s - length d" and le2: "len \<le> ?n - length d mod ?n"
      by (simp_all add: len)
    have dn: "length d mod ?n < ?n" using g(1) by simp
    have m': "mrrb' = mrrb\<lparr>readers := (readers mrrb)
            [i := r1\<lparr>read_ptr := mrrb_advance_pointer mrrb (read_ptr ?r) len\<rparr>]\<rparr>"
      and cbs: "cbs = [Notify_data i (handle ?r) (read_ptr ?r) len]"
      using renotify(5) rc True by (simp_all add: r1_def)
    have "take len (drop (length d mod ?n) (buffer mrrb)) = take len (drop (length d) s)"
    proof (rule slice_of_stream [OF g(1) g(2)])
      show "length d + len \<le> length s" using le1 c(2) by arith
      show "length d mod ?n + len \<le> ?n" using le2 dn by arith
      show "\<forall>p. length d \<le> p \<and> p < length s \<longrightarrow> buffer mrrb ! (p mod ?n) = s ! p"
        using c(1,6) by simp
    qed
    then have "d @ notified i (buffer mrrb') cbs = take (length d) s @ take len (drop (length d) s)"
      using c(5) by (simp add: m' cbs c(4))
    then have new: "d @ notified i (buffer mrrb') cbs = take (length d + len) s"
      by (simp add: take_add)
    have lend: "length (take (length d + len) s) = length d + len"
      using le1 c(2) by simp
    have adv: "mrrb_advance_pointer mrrb (read_ptr ?r) len = (length d + len) mod ?n"
    proof -
      have "mrrb_advance_pointer mrrb (read_ptr ?r) len = (read_ptr ?r + len) mod ?n"
        by (rule advance_pointer_mod) (use le2 dn c(4) in \<open>simp_all\<close>)
      then show ?thesis by (simp add: c(4) mod_add_left_eq)
    qed
    have "stream_inv i mrrb' s (take (length d + len) s)"
    proof (rule stream_inv_activeI [where c = "length d"])
      show "length d < length (take (length d + len) s)"
        unfolding lend using renotify(4) by simp
      show "length (take (length d + len) s) \<le> length s" by simp
      show "length s \<le> length d + buffer_length mrrb'" using lt by (simp add: m')
      show "read_ptr (readers mrrb' ! i) =
            length (take (length d + len) s) mod buffer_length mrrb'"
        unfolding lend using g(3) adv by (simp add: m')
      show "take (length d + len) s = take (length (take (length d + len) s)) s"
        unfolding lend by (rule refl)
      show "is_full (readers mrrb' ! i) \<longleftrightarrow> length s = length d + buffer_length mrrb'"
        using g(3) lt by (simp add: m' r1_def)
      show "\<forall>p. length d \<le> p \<and> p < length s \<longrightarrow>
                buffer mrrb' ! (p mod buffer_length mrrb') = s ! p"
        using c(1,6) by (simp add: m')
    qed (use g act c(4) in \<open>simp_all add: m' r1_def\<close>)
    then show ?thesis by (simp only: new)
  qed
qed

lemma abort_complete_result:
  obtains (unchanged) "mrrb_abort_complete True mrrb h = (mrrb, [])"
  | (changed) j r' cbs where "j < length (readers mrrb)"
      "status (readers mrrb ! j) = MRRB_READER_STATUS_DISABLING \<or>
       status (readers mrrb ! j) = MRRB_READER_STATUS_ABORTING"
      "mrrb_abort_complete True mrrb h = (mrrb\<lparr>readers := (readers mrrb)[j := r']\<rparr>, cbs)"
      "cbs = [] \<or> (\<exists>h p n. cbs = [Notify_data j h p n])"
proof (cases "h = NULL")
  case True
  then show ?thesis using unchanged by (simp add: mrrb_abort_complete_def)
next
  case nn: False
  show ?thesis
  proof (cases "mrrb_get_reader_by_handle mrrb h")
    case None
    then show ?thesis using unchanged nn by (simp add: mrrb_abort_complete_def)
  next
    case (Some j)
    then have j: "j < length (readers mrrb)" by (rule mrrb_get_reader_by_handle_Some)
    consider (dis) "status (readers mrrb ! j) = MRRB_READER_STATUS_DISABLING"
      | (ab) "status (readers mrrb ! j) = MRRB_READER_STATUS_ABORTING"
      | (other) "status (readers mrrb ! j) \<noteq> MRRB_READER_STATUS_DISABLING"
                "status (readers mrrb ! j) \<noteq> MRRB_READER_STATUS_ABORTING"
      by blast
    then show ?thesis
    proof cases
      case dis
      show ?thesis
        by (rule changed [OF j, where cbs = "[]"])
           (use nn Some dis in \<open>simp_all add: mrrb_abort_complete_def Let_def\<close>)
    next
      case ab
      let ?len = "mrrb_reader_get_continuous_readable_space mrrb (readers mrrb ! j)"
      show ?thesis
      proof (cases "?len > 0 \<and> ongoing_writes mrrb = 0")
        case True
        show ?thesis
          by (rule changed [OF j, where
                cbs = "[Notify_data j (handle (readers mrrb ! j))
                          (read_complete_ptr (readers mrrb ! j)) ?len]"])
             (use nn Some ab True in \<open>simp_all add: mrrb_abort_complete_def Let_def\<close>)
      next
        case False
        show ?thesis
          by (rule changed [OF j, where cbs = "[]"])
             (use nn Some ab False in \<open>auto simp: mrrb_abort_complete_def Let_def\<close>)
      qed
    next
      case other
      then show ?thesis using unchanged nn Some
        by (simp add: mrrb_abort_complete_def Let_def)
    qed
  qed
qed

lemma abort_complete_inv:
  assumes inv: "stream_inv i mrrb s d"
    and ac: "mrrb_abort_complete True mrrb h = (mrrb', cbs)"
  shows "stream_inv i mrrb' s (d @ notified i (buffer mrrb') cbs)"
  using abort_complete_result [of mrrb h]
proof cases
  case unchanged
  with ac inv show ?thesis by simp
next
  case (changed j r' cbs')
  from stream_inv_global(8) [OF inv] changed(2) have ne: "j \<noteq> i" by auto
  from changed(3) ac have m': "mrrb' = mrrb\<lparr>readers := (readers mrrb)[j := r']\<rparr>"
    and cbs: "cbs = cbs'" by simp_all
  from changed(4) ne have "notified i (buffer mrrb') cbs = []"
    by (auto simp: cbs)
  then show ?thesis
    using stream_inv_other_reader [OF inv ne, of r'] by (simp add: m')
qed

lemma memcpy_length:
  assumes "off + n \<le> length dest" and "n \<le> length src"
  shows "length (memcpy dest off src n) = length dest"
  using assms by (simp add: memcpy_def)

lemma memcpy_nth:
  assumes "off + n \<le> length dest" and "n \<le> length src" and "q < length dest"
  shows "memcpy dest off src n ! q =
         (if off \<le> q \<and> q < off + n then src ! (q - off) else dest ! q)"
proof -
  consider "q < off" | "off \<le> q" "q < off + n" | "off + n \<le> q" by linarith
  then show ?thesis
  proof cases
    case 1
    then show ?thesis using assms by (simp add: memcpy_def nth_append)
  next
    case 2
    then have "q - off < n" by simp
    then show ?thesis using assms 2 by (simp add: memcpy_def nth_append)
  next
    case 3
    then have "off + n + (q - off - n) = q" and "\<not> q < off" and "\<not> q - off < n"
      and "\<not> (off \<le> q \<and> q < off + n)" by arith+
    then show ?thesis using assms by (simp add: memcpy_def nth_append)
  qed
qed

text \<open>The buffer after the two copies, position by position.\<close>
lemma write_copy_nth:
  assumes len: "length (buffer mrrb) = n" and a: "a < n" and m: "m \<le> n" "m \<le> length data"
    and l: "write_pointer l = a"
      "continuous_write_length l = (if m \<ge> n - a then n - a else m)"
      "spill_write_length l = (if m \<ge> n - a then m - (n - a) else 0)"
    and q: "q < n"
  shows "length (buffer (mrrb_write_copy mrrb data l)) = n \<and>
         buffer (mrrb_write_copy mrrb data l) ! q =
           (if q < spill_write_length l then data ! (continuous_write_length l + q)
            else if a \<le> q \<and> q < a + continuous_write_length l then data ! (q - a)
            else buffer mrrb ! q)"
proof -
  let ?c = "continuous_write_length l"
  let ?s = "spill_write_length l"
  define b1 where "b1 = (if ?c > 0 then memcpy (buffer mrrb) a data ?c else buffer mrrb)"
  define b2 where "b2 = (if ?s > 0 then memcpy b1 0 (drop ?c data) ?s else b1)"
  have res: "buffer (mrrb_write_copy mrrb data l) = b2"
    by (simp add: mrrb_write_copy_def b1_def b2_def l(1) Let_def)
  have c1: "a + ?c \<le> n" and c2: "?c \<le> length data" and cs: "?c + ?s = m"
    using a m by (auto simp: l(2,3))
  have s1: "?s \<le> n" and s2: "?s \<le> length (drop ?c data)"
    using cs m by simp_all
  have b1_len: "length b1 = n"
    using c1 c2 len by (simp add: b1_def memcpy_length)
  have b1_nth: "b1 ! q = (if a \<le> q \<and> q < a + ?c then data ! (q - a) else buffer mrrb ! q)"
  proof (cases "?c > 0")
    case True
    then show ?thesis using memcpy_nth [of a ?c "buffer mrrb" data q] c1 c2 len q
      by (simp add: b1_def)
  next
    case False
    then show ?thesis by (auto simp: b1_def)
  qed
  have b2_len: "length b2 = n"
    using s1 s2 b1_len by (simp add: b2_def memcpy_length)
  have b2_nth: "b2 ! q = (if q < ?s then data ! (?c + q) else b1 ! q)"
  proof (cases "?s > 0")
    case True
    then show ?thesis using memcpy_nth [of 0 ?s b1 "drop ?c data" q] s1 s2 b1_len q c2
      by (simp add: b2_def)
  next
    case False
    then show ?thesis by (simp add: b2_def)
  qed
  show ?thesis unfolding res using b2_len b2_nth b1_nth by simp
qed

lemma write_copy_new:
  assumes len: "length (buffer mrrb) = n" and a: "a < n" and m: "m \<le> n" "m \<le> length data"
    and l: "write_pointer l = a"
      "continuous_write_length l = (if m \<ge> n - a then n - a else m)"
      "spill_write_length l = (if m \<ge> n - a then m - (n - a) else 0)"
    and k: "k < m"
  shows "buffer (mrrb_write_copy mrrb data l) ! ((a + k) mod n) = data ! k"
proof -
  let ?c = "continuous_write_length l"
  let ?s = "spill_write_length l"
  have qn: "(a + k) mod n < n" using a by simp
  note nth = write_copy_nth [OF len a m l qn, THEN conjunct2]
  show ?thesis
  proof (cases "a + k < n")
    case True
    then have q: "(a + k) mod n = a + k" by simp
    have "?s \<le> a" using m(1) a by (auto simp: l(3))
    then have "\<not> a + k < ?s" by simp
    moreover have "a + k < a + ?c" using True k by (auto simp: l(2))
    ultimately show ?thesis using nth by (simp add: q)
  next
    case False
    then have "n \<le> a + k" and "a + k - n < n" using a k m(1) by simp_all
    then have q: "(a + k) mod n = a + k - n" by (metis le_mod_geq mod_less)
    have sp: "m \<ge> n - a" using False k by simp
    have "?s = m - (n - a)" and "?c = n - a" using sp by (simp_all add: l(2,3))
    moreover have "a + k - n < m - (n - a)" and "n - a + (a + k - n) = k"
      using False k sp a by arith+
    ultimately have "a + k - n < ?s" and "?c + (a + k - n) = k" by simp_all
    then have "a + k - n < ?s" and "?c + (a + k - n) = k" by simp_all
    then show ?thesis using nth by (simp add: q)
  qed
qed

lemma write_copy_old:
  assumes len: "length (buffer mrrb) = n" and a: "a < n" and m: "m \<le> n" "m \<le> length data"
    and l: "write_pointer l = a"
      "continuous_write_length l = (if m \<ge> n - a then n - a else m)"
      "spill_write_length l = (if m \<ge> n - a then m - (n - a) else 0)"
    and q: "q < n" and other: "\<forall>k<m. q \<noteq> (a + k) mod n"
  shows "buffer (mrrb_write_copy mrrb data l) ! q = buffer mrrb ! q"
proof -
  let ?c = "continuous_write_length l"
  let ?s = "spill_write_length l"
  note nth = write_copy_nth [OF len a m l q, THEN conjunct2]
  have 1: "\<not> q < ?s"
  proof
    assume qs: "q < ?s"
    then have sp: "m \<ge> n - a" by (simp add: l(3) split: if_splits)
    with qs have k: "n - a + q < m" by (auto simp: l(3))
    have "a + (n - a + q) = n + q" using a by simp
    then have "(a + (n - a + q)) mod n = q" using q by simp
    with other k show False by metis
  qed
  have 2: "\<not> (a \<le> q \<and> q < a + ?c)"
  proof
    assume aq: "a \<le> q \<and> q < a + ?c"
    then have k: "q - a < m" by (auto simp: l(2) split: if_splits)
    have "(a + (q - a)) mod n = q" using aq q by simp
    with other k show False by metis
  qed
  show ?thesis unfolding nth by (simp add: 1 2)
qed

lemma write_copy_fields:
  "buffer_length (mrrb_write_copy mrrb data l) = buffer_length mrrb \<and>
   readers (mrrb_write_copy mrrb data l) = readers mrrb \<and>
   write_ptr (mrrb_write_copy mrrb data l) = write_ptr mrrb \<and>
   reservation_ptr (mrrb_write_copy mrrb data l) = reservation_ptr mrrb \<and>
   ongoing_writes (mrrb_write_copy mrrb data l) = ongoing_writes mrrb"
  by (simp add: mrrb_write_copy_def Let_def)

lemma remaining_space_loop_le_acc:
  "remaining_space_loop mrrb rs acc \<le> acc"
  unfolding remaining_space_loop_Min by (rule Min_le) simp_all

lemma remaining_space_loop_le_reader:
  "reader \<in> set rs \<Longrightarrow>
   remaining_space_loop mrrb rs acc \<le> mrrb_reader_get_remaining_space mrrb reader"
  unfolding remaining_space_loop_Min by (rule Min_le) simp_all

lemma mrrb_get_remaining_space_le:
  "mrrb_get_remaining_space (Some mrrb) \<le> buffer_length mrrb"
  "i < length (readers mrrb) \<Longrightarrow>
   mrrb_get_remaining_space (Some mrrb) \<le> mrrb_reader_get_remaining_space mrrb (readers mrrb ! i)"
  by (simp_all add: mrrb_get_remaining_space_def remaining_space_loop_le_acc
      remaining_space_loop_le_reader)

lemma clear_overrun_reader_blocking:
  assumes "overrun_policy reader = MRRB_READER_OVERRUN_BLOCKING"
  shows "fst (clear_overrun_reader mrrb requested_space reader) = reader"
    and "status reader = MRRB_READER_STATUS_ACTIVE \<Longrightarrow>
         fst (snd (clear_overrun_reader mrrb requested_space reader)) =
           Some (mrrb_reader_get_remaining_space mrrb reader)"
  using assms by (simp_all add: clear_overrun_reader_def Let_def)

lemma clear_overrun_space_blocking:
  assumes "i < length (readers mrrb)"
    and "overrun_policy (readers mrrb ! i) = MRRB_READER_OVERRUN_BLOCKING"
    and "mrrb_clear_overrun_space mrrb requested_space = (mrrb', clear_space, flags)"
  shows "mrrb' = mrrb\<lparr>readers := readers mrrb'\<rparr>"
    and "length (readers mrrb') = length (readers mrrb)"
    and "readers mrrb' ! i = readers mrrb ! i"
    and "clear_space \<le> buffer_length mrrb"
    and "status (readers mrrb ! i) = MRRB_READER_STATUS_ACTIVE \<Longrightarrow>
         clear_space \<le> mrrb_reader_get_remaining_space mrrb (readers mrrb ! i)"
proof -
  obtain rs' where loop: "clear_overrun_loop mrrb requested_space (readers mrrb)
                            (buffer_length mrrb) = (rs', clear_space, flags)"
    and m': "mrrb' = mrrb\<lparr>readers := rs'\<rparr>"
    using assms(3) by (auto simp: mrrb_clear_overrun_space_def split: prod.splits)
  note nth = clear_overrun_loop_nth [OF loop assms(1)]
  show "mrrb' = mrrb\<lparr>readers := readers mrrb'\<rparr>" by (simp add: m')
  show "length (readers mrrb') = length (readers mrrb)" using nth by (simp add: m')
  show "readers mrrb' ! i = readers mrrb ! i"
    using nth clear_overrun_reader_blocking(1) [OF assms(2)] by (simp add: m')
  show "clear_space \<le> buffer_length mrrb" using nth by simp
  show "clear_space \<le> mrrb_reader_get_remaining_space mrrb (readers mrrb ! i)"
    if "status (readers mrrb ! i) = MRRB_READER_STATUS_ACTIVE"
    using nth clear_overrun_reader_blocking(2) [OF assms(2) that] by simp
qed

lemma write_length_choice_blocking:
  assumes "i < length (readers mrrb)"
    and "overrun_policy (readers mrrb ! i) = MRRB_READER_OVERRUN_BLOCKING"
    and "write_length_choice mrrb n = (m1, wlen, flags, aborts)"
  shows "m1 = mrrb\<lparr>readers := readers m1\<rparr>"
    and "length (readers m1) = length (readers mrrb)"
    and "readers m1 ! i = readers mrrb ! i"
    and "wlen \<le> n" and "wlen \<le> buffer_length mrrb"
    and "status (readers mrrb ! i) = MRRB_READER_STATUS_ACTIVE \<Longrightarrow>
         wlen \<le> mrrb_reader_get_remaining_space mrrb (readers mrrb ! i)"
proof -
  let ?rem = "mrrb_get_remaining_space (Some mrrb)"
  note le = mrrb_get_remaining_space_le(1) [of mrrb]
    mrrb_get_remaining_space_le(2) [OF assms(1)]
  consider (fits) "n \<le> ?rem"
    | (clear) "\<not> n \<le> ?rem" "mrrb_get_overwritable_space (Some mrrb) > ?rem"
    | (trunc) "\<not> n \<le> ?rem" "\<not> mrrb_get_overwritable_space (Some mrrb) > ?rem"
    by blast
  then have "m1 = mrrb\<lparr>readers := readers m1\<rparr> \<and>
     length (readers m1) = length (readers mrrb) \<and>
     readers m1 ! i = readers mrrb ! i \<and> wlen \<le> n \<and> wlen \<le> buffer_length mrrb \<and>
     (status (readers mrrb ! i) = MRRB_READER_STATUS_ACTIVE \<longrightarrow>
         wlen \<le> mrrb_reader_get_remaining_space mrrb (readers mrrb ! i))"
  proof cases
    case fits
    with assms(3) have "m1 = mrrb" "wlen = n"
      by (auto simp: write_length_choice_def Let_def)
    with fits le show ?thesis by simp
  next
    case trunc
    with assms(3) have "m1 = mrrb" "wlen = ?rem"
      by (auto simp: write_length_choice_def Let_def)
    with trunc le show ?thesis by simp
  next
    case clear
    let ?req = "if n \<le> buffer_length mrrb then n else buffer_length mrrb"
    obtain m' cs fl where c: "mrrb_clear_overrun_space mrrb ?req = (m', cs, fl)"
      by (cases "mrrb_clear_overrun_space mrrb ?req") auto
    with clear assms(3) have "m1 = m'" "wlen = (if n \<le> cs then n else cs)"
      by (auto simp: write_length_choice_def Let_def)
    with clear_overrun_space_blocking [OF assms(1,2) c] show ?thesis by auto
  qed
  then show "m1 = mrrb\<lparr>readers := readers m1\<rparr>"
    and "length (readers m1) = length (readers mrrb)"
    and "readers m1 ! i = readers mrrb ! i"
    and "wlen \<le> n" and "wlen \<le> buffer_length mrrb"
    and "status (readers mrrb ! i) = MRRB_READER_STATUS_ACTIVE \<Longrightarrow>
         wlen \<le> mrrb_reader_get_remaining_space mrrb (readers mrrb ! i)"
    by blast+
qed

lemma write_reserve_blocking_aux:
  assumes i: "i < length (readers mrrb)"
    and pol: "overrun_policy (readers mrrb ! i) = MRRB_READER_OVERRUN_BLOCKING"
    and res: "reservation_ptr mrrb < buffer_length mrrb"
    and st: "status (readers mrrb ! i) = MRRB_READER_STATUS_IDLE \<or>
             status (readers mrrb ! i) = MRRB_READER_STATUS_ACTIVE"
    and rv: "mrrb_write_reserve mrrb n = (m4, l)"
  shows "write_length l \<le> n \<and> write_length l \<le> buffer_length mrrb \<and>
         (status (readers mrrb ! i) = MRRB_READER_STATUS_ACTIVE \<longrightarrow>
            write_length l \<le> mrrb_reader_get_remaining_space mrrb (readers mrrb ! i)) \<and>
         buffer m4 = buffer mrrb \<and> buffer_length m4 = buffer_length mrrb \<and>
         write_ptr m4 = write_ptr mrrb \<and> ongoing_writes m4 = ongoing_writes mrrb + 1 \<and>
         reservation_ptr m4 =
           (reservation_ptr mrrb + write_length l) mod buffer_length mrrb \<and>
         length (readers m4) = length (readers mrrb) \<and>
         readers m4 ! i =
           (readers mrrb ! i)\<lparr>is_full :=
              (reservation_ptr m4 = read_complete_ptr (readers mrrb ! i))\<rparr> \<and>
         write_pointer l = reservation_ptr mrrb \<and>
         continuous_write_length l =
           (if write_length l \<ge> buffer_length mrrb - reservation_ptr mrrb
            then buffer_length mrrb - reservation_ptr mrrb else write_length l) \<and>
         spill_write_length l =
           (if write_length l \<ge> buffer_length mrrb - reservation_ptr mrrb
            then write_length l - (buffer_length mrrb - reservation_ptr mrrb) else 0)"
proof -
  obtain m1 wlen flags aborts where ch: "write_length_choice mrrb n = (m1, wlen, flags, aborts)"
    by (cases "write_length_choice mrrb n") auto
  note c = write_length_choice_blocking [OF i pol ch]
  have f: "buffer m1 = buffer mrrb" "buffer_length m1 = buffer_length mrrb"
    "write_ptr m1 = write_ptr mrrb" "reservation_ptr m1 = reservation_ptr mrrb"
    "ongoing_writes m1 = ongoing_writes mrrb"
    by (subst c(1), simp)+
  define res' where "res' = (if wlen \<ge> buffer_length mrrb - reservation_ptr mrrb
                              then wlen - (buffer_length mrrb - reservation_ptr mrrb)
                              else reservation_ptr mrrb + wlen)"
  have res'_mod: "res' = (reservation_ptr mrrb + wlen) mod buffer_length mrrb"
    unfolding res'_def by (rule wrap_add_mod [OF res c(5)])
  define m2 where "m2 = m1\<lparr>reservation_ptr := res'\<rparr>"
  have m4: "m4 = m2\<lparr>readers := map (update_full_flag m2) (readers m2),
                     ongoing_writes := ongoing_writes m2 + 1\<rparr>"
    and l: "l = \<lparr>write_length = wlen, write_pointer = reservation_ptr mrrb,
               continuous_write_length =
                 (if wlen \<ge> buffer_length mrrb - reservation_ptr mrrb
                  then buffer_length mrrb - reservation_ptr mrrb else wlen),
               spill_write_length =
                 (if wlen \<ge> buffer_length mrrb - reservation_ptr mrrb
                  then wlen - (buffer_length mrrb - reservation_ptr mrrb) else 0),
               reader_notification_flags = flags, abort_readers = aborts\<rparr>"
    using rv unfolding mrrb_write_reserve_def ch Let_def m2_def res'_def prod.case f
    by simp_all
  have ri: "readers m4 ! i = update_full_flag m2 (readers mrrb ! i)"
    using i c(2,3) by (simp add: m4 m2_def)
  have "update_full_flag m2 (readers mrrb ! i) =
        (readers mrrb ! i)\<lparr>is_full := (res' = read_complete_ptr (readers mrrb ! i))\<rparr>"
    using st by (auto simp: update_full_flag_def m2_def)
  with ri have ri': "readers m4 ! i =
        (readers mrrb ! i)\<lparr>is_full := (reservation_ptr m4 = read_complete_ptr (readers mrrb ! i))\<rparr>"
    by (simp add: m4 m2_def)
  show ?thesis
    using c(4,5,6) ri' res'_mod
    by (simp add: l m4 m2_def f c(2))
qed


lemma write_reserve_blocking:
  assumes "i < length (readers mrrb)"
    and "overrun_policy (readers mrrb ! i) = MRRB_READER_OVERRUN_BLOCKING"
    and "reservation_ptr mrrb < buffer_length mrrb"
    and "status (readers mrrb ! i) = MRRB_READER_STATUS_IDLE \<or>
         status (readers mrrb ! i) = MRRB_READER_STATUS_ACTIVE"
    and "mrrb_write_reserve mrrb n = (m4, l)"
  shows "write_length l \<le> n" and "write_length l \<le> buffer_length mrrb"
    and "status (readers mrrb ! i) = MRRB_READER_STATUS_ACTIVE \<Longrightarrow>
           write_length l \<le> mrrb_reader_get_remaining_space mrrb (readers mrrb ! i)"
    and "buffer m4 = buffer mrrb" and "buffer_length m4 = buffer_length mrrb"
    and "write_ptr m4 = write_ptr mrrb" and "ongoing_writes m4 = ongoing_writes mrrb + 1"
    and "reservation_ptr m4 =
           (reservation_ptr mrrb + write_length l) mod buffer_length mrrb"
    and "length (readers m4) = length (readers mrrb)"
    and "readers m4 ! i =
           (readers mrrb ! i)\<lparr>is_full :=
              (reservation_ptr m4 = read_complete_ptr (readers mrrb ! i))\<rparr>"
    and "write_pointer l = reservation_ptr mrrb"
    and "continuous_write_length l =
           (if write_length l \<ge> buffer_length mrrb - reservation_ptr mrrb
            then buffer_length mrrb - reservation_ptr mrrb else write_length l)"
    and "spill_write_length l =
           (if write_length l \<ge> buffer_length mrrb - reservation_ptr mrrb
            then write_length l - (buffer_length mrrb - reservation_ptr mrrb) else 0)"
  using write_reserve_blocking_aux [OF assms] by blast+

lemma notify_loop_index:
  assumes "notify_loop mrrb k rfs = (rs', cbs)" and "i < k"
  shows "notified i buf cbs = []"
  using assms
proof (induction rfs arbitrary: k rs' cbs)
  case Nil
  then show ?case by simp
next
  case (Cons rf rfs)
  obtain r f where rf: "rf = (r, f)" by (cases rf)
  obtain rs1 cbs1 where rest: "notify_loop mrrb (Suc k) rfs = (rs1, cbs1)"
    by (cases "notify_loop mrrb (Suc k) rfs") auto
  have "notified i buf cbs1 = []" using Cons.IH [OF rest] Cons.prems(2) by simp
  then show ?case using Cons.prems rest by (auto simp: rf Let_def split: if_splits)
qed

lemma notify_loop_nth:
  assumes "notify_loop mrrb k rfs = (rs', cbs)" and "j < length rfs"
  shows "length rs' = length rfs \<and>
         rs' ! j =
           (if snd (rfs ! j)
            then (fst (rfs ! j))\<lparr>read_ptr :=
                   mrrb_advance_pointer mrrb (read_complete_ptr (fst (rfs ! j)))
                     (mrrb_reader_get_continuous_readable_space mrrb (fst (rfs ! j)))\<rparr>
            else fst (rfs ! j)) \<and>
         notified (k + j) buf cbs =
           (if snd (rfs ! j)
            then take (mrrb_reader_get_continuous_readable_space mrrb (fst (rfs ! j)))
                   (drop (read_complete_ptr (fst (rfs ! j))) buf)
            else [])"
  using assms
proof (induction rfs arbitrary: k rs' cbs j)
  case Nil
  then show ?case by simp
next
  case (Cons rf rfs)
  obtain r f where rf: "rf = (r, f)" by (cases rf)
  obtain rs1 cbs1 where rest: "notify_loop mrrb (Suc k) rfs = (rs1, cbs1)"
    by (cases "notify_loop mrrb (Suc k) rfs") auto
  have len: "length rs1 = length rfs"
  proof (cases rfs)
    case Nil
    with rest show ?thesis by simp
  next
    case (Cons a list)
    then have "0 < length rfs" by simp
    from Cons.IH [OF rest this] show ?thesis by simp
  qed
  show ?case
  proof (cases j)
    case 0
    have "notified k buf cbs1 = []" by (rule notify_loop_index [OF rest]) simp
    then show ?thesis using Cons.prems(1) rest len 0
      by (auto simp: rf Let_def split: if_splits)
  next
    case (Suc j')
    with Cons.prems(2) have "j' < length rfs" by simp
    from Cons.IH [OF rest this] Cons.prems(1) rest Suc show ?thesis
      by (auto simp: rf Let_def split: if_splits)
  qed
qed

lemma notified_append:
  "notified i buf (xs @ ys) = notified i buf xs @ notified i buf ys"
  by (induction i buf xs rule: notified.induct) simp_all

lemma notified_abort_loop: "notified i buf (abort_loop k rs flags) = []"
  by (induction k rs flags rule: abort_loop.induct) simp_all

lemma write_publish_reader_aux:
  assumes ow: "ongoing_writes mrrb = 1" and i: "i < length (readers mrrb)"
    and pb: "mrrb_write_publish mrrb = (mrrb', cbs)"
    and pr: "publish_reader mrrb (readers mrrb ! i) = (r1, f)"
  shows "buffer mrrb' = buffer mrrb \<and> buffer_length mrrb' = buffer_length mrrb \<and>
         ongoing_writes mrrb' = 0 \<and> write_ptr mrrb' = reservation_ptr mrrb \<and>
         reservation_ptr mrrb' = reservation_ptr mrrb \<and>
         length (readers mrrb') = length (readers mrrb) \<and>
         readers mrrb' ! i =
           (if f then r1\<lparr>read_ptr :=
                      mrrb_advance_pointer mrrb' (read_complete_ptr r1)
                        (mrrb_reader_get_continuous_readable_space mrrb' r1)\<rparr>
            else r1) \<and>
         notified i buf cbs =
           (if f then take (mrrb_reader_get_continuous_readable_space mrrb' r1)
                        (drop (read_complete_ptr r1) buf)
            else [])"
proof -
  define m1 where "m1 = mrrb\<lparr>ongoing_writes := ongoing_writes mrrb - 1\<rparr>"
  define prs where "prs = map (publish_reader m1) (readers m1)"
  define m3 where "m3 = m1\<lparr>readers := map fst prs, write_ptr := reservation_ptr m1\<rparr>"
  define rfs where "rfs = zip (readers m3) (map snd prs)"
  obtain rs' cbs' where nl: "notify_loop m3 0 rfs = (rs', cbs')"
    by (cases "notify_loop m3 0 rfs") auto
  have z: "ongoing_writes m1 = 0" using ow by (simp add: m1_def)
  have res: "mrrb' = m3\<lparr>readers := rs'\<rparr>" "cbs = cbs'"
    using pb z nl
    unfolding mrrb_write_publish_def Let_def m1_def [symmetric] prs_def [symmetric] rfs_def
    by (simp_all add: m3_def)
  have "publish_reader m1 (readers mrrb ! i) = publish_reader mrrb (readers mrrb ! i)"
    by (simp add: publish_reader_def m1_def)
  with pr have pr1: "publish_reader m1 (readers mrrb ! i) = (r1, f)" by simp
  have len: "length rfs = length (readers mrrb)"
    by (simp add: rfs_def m3_def prs_def m1_def)
  then have li: "i < length rfs" using i by simp
  have zi: "rfs ! i = (r1, f)"
    using i pr1 by (simp add: rfs_def m3_def prs_def m1_def)
  have cont: "mrrb_reader_get_continuous_readable_space mrrb' r1 =
              mrrb_reader_get_continuous_readable_space m3 r1"
    by (simp add: mrrb_reader_get_continuous_readable_space_def res)
  have adv: "\<And>p n. mrrb_advance_pointer mrrb' p n = mrrb_advance_pointer m3 p n"
    by (simp add: mrrb_advance_pointer_def res)
  have "length rs' = length (readers mrrb) \<and>
        rs' ! i = (if f then r1\<lparr>read_ptr :=
                      mrrb_advance_pointer m3 (read_complete_ptr r1)
                        (mrrb_reader_get_continuous_readable_space m3 r1)\<rparr>
            else r1) \<and>
        notified i buf cbs' =
           (if f then take (mrrb_reader_get_continuous_readable_space m3 r1)
                        (drop (read_complete_ptr r1) buf)
            else [])"
    using notify_loop_nth [OF nl li, of buf] unfolding zi len fst_conv snd_conv by simp
  then show ?thesis
    unfolding cont adv by (simp add: res m3_def m1_def ow)
qed

lemma write_publish_reader:
  assumes "ongoing_writes mrrb = 1" and "i < length (readers mrrb)"
    and "mrrb_write_publish mrrb = (mrrb', cbs)"
    and "publish_reader mrrb (readers mrrb ! i) = (r1, f)"
  shows "buffer mrrb' = buffer mrrb" and "buffer_length mrrb' = buffer_length mrrb"
    and "ongoing_writes mrrb' = 0" and "write_ptr mrrb' = reservation_ptr mrrb"
    and "reservation_ptr mrrb' = reservation_ptr mrrb"
    and "length (readers mrrb') = length (readers mrrb)"
    and "readers mrrb' ! i =
           (if f then r1\<lparr>read_ptr :=
                      mrrb_advance_pointer mrrb' (read_complete_ptr r1)
                        (mrrb_reader_get_continuous_readable_space mrrb' r1)\<rparr>
            else r1)"
    and "notified i buf cbs =
           (if f then take (mrrb_reader_get_continuous_readable_space mrrb' r1)
                        (drop (read_complete_ptr r1) buf)
            else [])"
  using write_publish_reader_aux [OF assms, of buf] by blast+

lemma remaining_active:
  assumes n: "0 < buffer_length mrrb"
    and res: "reservation_ptr mrrb = t mod buffer_length mrrb"
    and rcp: "read_complete_ptr reader = c mod buffer_length mrrb"
    and st: "status reader = MRRB_READER_STATUS_ACTIVE"
    and full: "is_full reader \<longleftrightarrow> t = c + buffer_length mrrb"
    and ct: "c < t" "t \<le> c + buffer_length mrrb"
  shows "mrrb_reader_get_remaining_space mrrb reader = c + buffer_length mrrb - t"
proof (cases "is_full reader")
  case True
  with full st show ?thesis by (simp add: mrrb_reader_get_remaining_space_def)
next
  case False
  let ?n = "buffer_length mrrb"
  define x where "x = c + ?n - t"
  from False full ct have x: "0 < x" "x \<le> ?n" and tx: "t + x = c + ?n"
    by (simp_all add: x_def)
  have "c mod ?n = (t + x) mod ?n" by (simp add: tx)
  also have "\<dots> = (t mod ?n + x) mod ?n" by (simp add: mod_add_left_eq)
  finally have c: "c mod ?n = (t mod ?n + x) mod ?n" .
  have "mrrb_reader_get_remaining_space mrrb reader = reader_space mrrb reader"
    by (rule reader_space_code) (use n in \<open>simp_all add: res rcp\<close>)
  also have "\<dots> = forward_distance ?n (t mod ?n) (c mod ?n)"
    using False st by (simp add: reader_space_def res rcp)
  also have "\<dots> = x" unfolding c by (rule forward_distance_add) (use n x in simp_all)
  finally show ?thesis by (simp add: x_def)
qed

lemma buffer_after_write:
  fixes s :: "byte list"
  assumes n: "0 < n"
    and new: "\<forall>k<wl. buf' ! ((length s + k) mod n) = data ! k"
    and old: "\<forall>q<n. (\<forall>k<wl. q \<noteq> (length s + k) mod n) \<longrightarrow> buf' ! q = buf ! q"
    and inv: "\<forall>p. c \<le> p \<and> p < length s \<longrightarrow> buf ! (p mod n) = s ! p"
    and c: "c \<le> length s" "length s + wl \<le> c + n" and wl: "wl \<le> length data"
  shows "\<forall>p. c \<le> p \<and> p < length (s @ take wl data) \<longrightarrow>
             buf' ! (p mod n) = (s @ take wl data) ! p"
proof (intro allI impI)
  fix p
  assume p: "c \<le> p \<and> p < length (s @ take wl data)"
  then have pw: "p < length s + wl" using wl by simp
  show "buf' ! (p mod n) = (s @ take wl data) ! p"
  proof (cases "p < length s")
    case True
    have "\<forall>k<wl. p mod n \<noteq> (length s + k) mod n"
    proof (intro allI impI)
      fix k
      assume k: "k < wl"
      define y where "y = length s + k - p"
      have y: "0 < y" "y \<le> n" "y \<noteq> n" and e: "length s + k = p + y"
        using True k p c by (simp_all add: y_def)
      from mod_add_eq_self_iff [OF y(1,2), of p] y(3)
      show "p mod n \<noteq> (length s + k) mod n" unfolding e by simp
    qed
    with old n have "buf' ! (p mod n) = buf ! (p mod n)" by simp
    with inv p True show ?thesis by (simp add: nth_append)
  next
    case False
    define k where "k = p - length s"
    from False pw have k: "k < wl" and e: "p = length s + k" by (simp_all add: k_def)
    from new k have "buf' ! (p mod n) = data ! k" by (simp add: e)
    with False k wl show ?thesis by (simp add: nth_append k_def)
  qed
qed

lemma write_copy_stream:
  assumes n: "0 < n" and len: "length (buffer mrrb) = n" and m: "m \<le> n" "m \<le> length data"
    and l: "write_pointer l = t mod n"
      "continuous_write_length l = (if m \<ge> n - t mod n then n - t mod n else m)"
      "spill_write_length l = (if m \<ge> n - t mod n then m - (n - t mod n) else 0)"
  shows "length (buffer (mrrb_write_copy mrrb data l)) = n"
    and "\<forall>k<m. buffer (mrrb_write_copy mrrb data l) ! ((t + k) mod n) = data ! k"
    and "\<forall>q<n. (\<forall>k<m. q \<noteq> (t + k) mod n) \<longrightarrow>
           buffer (mrrb_write_copy mrrb data l) ! q = buffer mrrb ! q"
proof -
  have a: "t mod n < n" using n by simp
  have e: "\<And>k. (t mod n + k) mod n = (t + k) mod n" by (simp add: mod_add_left_eq)
  show "length (buffer (mrrb_write_copy mrrb data l)) = n"
    using write_copy_nth [OF len a m l a] by simp
  show "\<forall>k<m. buffer (mrrb_write_copy mrrb data l) ! ((t + k) mod n) = data ! k"
    using write_copy_new [OF len a m l] by (simp add: e)
  show "\<forall>q<n. (\<forall>k<m. q \<noteq> (t + k) mod n) \<longrightarrow>
           buffer (mrrb_write_copy mrrb data l) ! q = buffer mrrb ! q"
    using write_copy_old [OF len a m l] by (simp add: e)
qed

lemma int_of_unsigned_small:
  assumes "n < 2 ^ 31"
  shows "int_of_unsigned n = int n"
proof -
  from assms have "int n < 2 ^ 31" by (simp flip: of_nat_less_iff)
  then show ?thesis by (simp add: int_of_unsigned_def)
qed

lemma int_of_unsigned_wraps: "int_of_unsigned (2 ^ 31) = - (2 ^ 31)"
  by (simp add: int_of_unsigned_def)

lemma read_complete_buffer_length:
  "buffer_length (fst (mrrb_read_complete True mrrb h)) = buffer_length mrrb"
  using read_complete_result [of mrrb h] by cases simp_all

lemma abort_complete_buffer_length:
  "buffer_length (fst (mrrb_abort_complete True mrrb h)) = buffer_length mrrb"
  using abort_complete_result [of mrrb h] by cases simp_all

lemma write_inv:
  assumes inv: "stream_inv i mrrb s d"
    and small: "buffer_length mrrb < 2 ^ 31"
    and w: "mrrb_write port_ok mrrb (Some data) = (ret, mrrb', cbs)"
    and ok: "\<not> (data \<noteq> [] \<and> ret = 0 \<and>
                status (readers mrrb ! i) = MRRB_READER_STATUS_IDLE)"
  shows "0 \<le> ret \<and> nat ret \<le> length data \<and> buffer_length mrrb' = buffer_length mrrb \<and>
         stream_inv i mrrb' (s @ take (nat ret) data) (d @ notified i (buffer mrrb') cbs)"
proof (cases "data = []")
  case True
  with w inv show ?thesis by (auto simp: mrrb_write_def)
next
  case False
  let ?n = "buffer_length mrrb"
  let ?r = "readers mrrb ! i"
  let ?t = "length s"
  note g = stream_inv_global [OF inv]
  have res_lt: "reservation_ptr mrrb < ?n" using g(1,7) by simp
  obtain m4 l where rv: "mrrb_write_reserve mrrb (length data) = (m4, l)"
    by (cases "mrrb_write_reserve mrrb (length data)")
  note R = write_reserve_blocking [OF g(3) g(4) res_lt g(8) rv]
  define wl where "wl = write_length l"
  let ?m2 = "mrrb_write_copy m4 data l"
  obtain m3 notifies where pb: "mrrb_write_publish ?m2 = (m3, notifies)"
    by (cases "mrrb_write_publish ?m2")
  define aborts where "aborts = (if abort_readers l
     then abort_loop 0 (readers m4) (reader_notification_flags l) else [])"
  from w False have w0: "ret = int_of_unsigned wl" "mrrb' = m3" "cbs = aborts @ notifies"
    by (simp_all add: mrrb_write_def port_ok_def rv Let_def pb wl_def aborts_def)
  have nt: "notified i (buffer m3) cbs = notified i (buffer m3) notifies"
    by (simp add: w0(3) notified_append aborts_def notified_abort_loop)
  have wl_data: "wl \<le> length data" and wl_n: "wl \<le> ?n"
    using R(1,2) by (simp_all add: wl_def)
  from wl_n small have "wl < 2 ^ 31" by simp
  then have w': "ret = int wl" "mrrb' = m3" "cbs = aborts @ notifies"
    using w0 by (simp_all add: int_of_unsigned_small)
  note F = write_copy_fields [of m4 data l]
  have len4: "length (buffer m4) = ?n" using R(4) g(2) by simp
  have lf: "write_pointer l = ?t mod ?n"
    "continuous_write_length l = (if wl \<ge> ?n - ?t mod ?n then ?n - ?t mod ?n else wl)"
    "spill_write_length l = (if wl \<ge> ?n - ?t mod ?n then wl - (?n - ?t mod ?n) else 0)"
    using R(11,12,13) g(7) by (simp_all add: wl_def)
  note B = write_copy_stream [OF g(1) len4 wl_n wl_data lf]
  have ow: "ongoing_writes ?m2 = 1" using F R(7) g(5) by simp
  have i2: "i < length (readers ?m2)" using F R(9) g(3) by simp
  obtain r1 f where pr: "publish_reader ?m2 (readers ?m2 ! i) = (r1, f)"
    by (cases "publish_reader ?m2 (readers ?m2 ! i)")
  note P = write_publish_reader [OF ow i2 pb pr]
  have res4: "reservation_ptr m4 = (?t + wl) mod ?n"
    using R(8) g(7) by (simp add: wl_def mod_add_left_eq)
  have r2: "readers ?m2 ! i = ?r\<lparr>is_full := ((?t + wl) mod ?n = read_complete_ptr ?r)\<rparr>"
    using F R(10) res4 by simp
  have g3: "buffer_length m3 = ?n" "length (buffer m3) = ?n" "i < length (readers m3)"
    "ongoing_writes m3 = 0" "write_ptr m3 = (?t + wl) mod ?n"
    "reservation_ptr m3 = (?t + wl) mod ?n"
    using P(1-6) F R(5) B(1) i2 res4 by simp_all
  have ls: "length (s @ take wl data) = ?t + wl" using wl_data by simp
  have old: "\<forall>q<?n. (\<forall>k<wl. q \<noteq> (?t + k) mod ?n) \<longrightarrow> buffer m3 ! q = buffer mrrb ! q"
    using B(3) P(1) R(4) by simp
  have new: "\<forall>k<wl. buffer m3 ! ((?t + k) mod ?n) = data ! k"
    using B(2) P(1) by simp
  from g(8) show ?thesis
  proof
    assume act: "status ?r = MRRB_READER_STATUS_ACTIVE"
    from stream_inv_activeE [OF inv act] obtain c where c: "c < length d"
      "length d \<le> length s" "length s \<le> c + ?n" "read_complete_ptr ?r = c mod ?n"
      "read_ptr ?r = length d mod ?n" "d = take (length d) s"
      "is_full ?r \<longleftrightarrow> length s = c + ?n"
      "\<forall>p. c \<le> p \<and> p < length s \<longrightarrow> buffer mrrb ! (p mod ?n) = s ! p" by blast
    have ct: "c < ?t" using c(1,2) by simp
    have rem: "mrrb_reader_get_remaining_space mrrb ?r = c + ?n - ?t"
      by (rule remaining_active [OF g(1) g(7) c(4) act c(7) ct c(3)])
    have wl_le: "?t + wl \<le> c + ?n" using R(3) [OF act] rem c(3) by (simp add: wl_def)
    have full': "((?t + wl) mod ?n = c mod ?n) \<longleftrightarrow> ?t + wl = c + ?n"
    proof -
      define y where "y = ?t + wl - c"
      have y: "0 < y" "y \<le> ?n" and e: "?t + wl = c + y"
        using ct wl_le by (simp_all add: y_def)
      from mod_add_eq_self_iff [OF y, of c] show ?thesis unfolding e by auto
    qed
    have pubr: "r1 = readers ?m2 ! i" "\<not> f"
      using pr act by (auto simp: publish_reader_def r2)
    have r3: "readers m3 ! i = ?r\<lparr>is_full := (?t + wl = c + ?n)\<rparr>"
      using P(7) pubr r2 full' c(4) by simp
    have nt0: "notified i (buffer m3) notifies = []" using P(8) pubr by simp
    have "take (length d) (s @ take wl data) = take (length d) s" using c(2) by simp
    also have "\<dots> = d" by (rule c(6) [symmetric])
    finally have dd: "take (length d) (s @ take wl data) = d" .
    have "stream_inv i m3 (s @ take wl data) d"
    proof (rule stream_inv_activeI [where c = c])
      show "\<forall>p. c \<le> p \<and> p < length (s @ take wl data) \<longrightarrow>
                buffer m3 ! (p mod buffer_length m3) = (s @ take wl data) ! p"
        unfolding g3(1)
        by (rule buffer_after_write [OF g(1) new old c(8) _ wl_le wl_data]) (use ct in simp)
      show "d = take (length d) (s @ take wl data)" by (rule dd [symmetric])
      show "length d \<le> length (s @ take wl data)" unfolding ls using c(2) by simp
      show "length (s @ take wl data) \<le> c + buffer_length m3"
        unfolding ls g3(1) by (rule wl_le)
      show "is_full (readers m3 ! i) \<longleftrightarrow> length (s @ take wl data) = c + buffer_length m3"
        unfolding ls g3(1) by (simp add: r3)
      show "write_ptr m3 = length (s @ take wl data) mod buffer_length m3"
        unfolding ls g3(1) by (rule g3(5))
      show "reservation_ptr m3 = length (s @ take wl data) mod buffer_length m3"
        unfolding ls g3(1) by (rule g3(6))
    qed (use g g3 act c in \<open>simp_all add: r3\<close>)
    then show ?thesis using w' nt nt0 wl_data g3(1) by simp
  next
    assume idle: "status ?r = MRRB_READER_STATUS_IDLE"
    note D = stream_inv_idleD [OF inv idle]
    have wl0: "0 < wl" using ok False idle w'(1) by simp
    have full': "((?t + wl) mod ?n = ?t mod ?n) \<longleftrightarrow> wl = ?n"
      using mod_add_eq_self_iff [OF wl0 wl_n, of ?t] .
    have w2: "write_ptr ?m2 = ?t mod ?n" using F R(6) g(6) by simp
    define r1' where "r1' = ?r\<lparr>is_full := (wl = ?n), status := MRRB_READER_STATUS_ACTIVE,
                                read_complete_ptr := ?t mod ?n\<rparr>"
    have pubr: "r1 = r1'" "f"
      using pr idle by (auto simp: publish_reader_def r2 D(2) full' w2 r1'_def)
    define span where "span = mrrb_reader_get_continuous_readable_space m3 r1'"
    have tn: "?t mod ?n < ?n" using g(1) by simp
    have span: "span = min wl (?n - ?t mod ?n)"
    proof (cases "wl = ?n")
      case True
      then show ?thesis
        unfolding span_def mrrb_reader_get_continuous_readable_space_def
        by (simp add: r1'_def g3)
    next
      case neq: False
      have "mrrb_reader_get_continuous_readable_space m3 r1' =
            min ((?t + wl) - ?t) (buffer_length m3 - ?t mod buffer_length m3)"
        by (rule cont_readable_value) (use g3 neq wl_n g(1) in \<open>simp_all add: r1'_def\<close>)
      then show ?thesis by (simp add: span_def g3)
    qed
    have span_le: "span \<le> wl" "?t mod ?n + span \<le> ?n" "0 < span" "span \<le> ?n"
      using wl0 wl_n tn unfolding span by arith+
    have adv: "mrrb_advance_pointer m3 (?t mod ?n) span = (?t + span) mod ?n"
    proof -
      have "mrrb_advance_pointer m3 (?t mod ?n) span = (?t mod ?n + span) mod buffer_length m3"
        by (rule advance_pointer_mod) (use tn span_le in \<open>simp_all add: g3\<close>)
      then show ?thesis by (simp add: g3 mod_add_left_eq)
    qed
    have r3: "readers m3 ! i = r1'\<lparr>read_ptr := (?t + span) mod ?n\<rparr>"
      using P(7) pubr adv by (simp add: span_def r1'_def)
    have all: "\<forall>p. ?t \<le> p \<and> p < length (s @ take wl data) \<longrightarrow>
                 buffer m3 ! (p mod ?n) = (s @ take wl data) ! p"
      by (rule buffer_after_write [OF g(1) new old _ _ _ wl_data]) (use wl_n in auto)
    have sl: "take span (drop (?t mod ?n) (buffer m3)) = take span (drop ?t (s @ take wl data))"
      by (rule slice_of_stream [OF g(1) g3(2) _ _ all]) (use span_le ls in simp_all)
    have nt1: "notified i (buffer m3) notifies = take span (drop ?t (s @ take wl data))"
      using P(8) pubr sl by (simp add: span_def r1'_def)
    have newd: "d @ notified i (buffer m3) notifies = take (?t + span) (s @ take wl data)"
      by (simp add: nt1 D(1))
    have lend: "length (take (?t + span) (s @ take wl data)) = ?t + span"
      using span_le(1) wl_data by simp
    have "stream_inv i m3 (s @ take wl data) (take (?t + span) (s @ take wl data))"
    proof (rule stream_inv_activeI [where c = "?t"])
      show "\<forall>p. ?t \<le> p \<and> p < length (s @ take wl data) \<longrightarrow>
                buffer m3 ! (p mod buffer_length m3) = (s @ take wl data) ! p"
        unfolding g3(1) by (rule all)
      show "?t < length (take (?t + span) (s @ take wl data))"
        unfolding lend using span_le(3) by simp
      show "length (take (?t + span) (s @ take wl data)) \<le> length (s @ take wl data)"
        by simp
      show "length (s @ take wl data) \<le> ?t + buffer_length m3"
        unfolding ls g3(1) using wl_n by simp
      show "take (?t + span) (s @ take wl data) =
            take (length (take (?t + span) (s @ take wl data))) (s @ take wl data)"
        unfolding lend by (rule refl)
      show "read_ptr (readers m3 ! i) =
            length (take (?t + span) (s @ take wl data)) mod buffer_length m3"
        unfolding lend g3(1) by (simp add: r3)
      show "is_full (readers m3 ! i) \<longleftrightarrow> length (s @ take wl data) = ?t + buffer_length m3"
        unfolding ls g3(1) by (simp add: r3 r1'_def)
      show "write_ptr m3 = length (s @ take wl data) mod buffer_length m3"
        unfolding ls g3(1) by (rule g3(5))
      show "reservation_ptr m3 = length (s @ take wl data) mod buffer_length m3"
        unfolding ls g3(1) by (rule g3(6))
    qed (use g g3 in \<open>simp_all add: r3 r1'_def\<close>)
    then show ?thesis using w' nt newd wl_data g3(1) by simp
  qed
qed

lemma mrrb_init_buffer_length:
  assumes "mrrb_init True mrrb0 (Some buf) n (Some rs) = (0, mrrb)"
  shows "buffer_length mrrb = n"
  using assms by (auto simp: mrrb_init_def Let_def split: if_splits)

lemma stream_inv_init:
  assumes "mrrb_init True mrrb0 (Some buf) (length buf) (Some rs) = (0, mrrb)"
    and "i < length rs"
    and "overrun_policy (rs ! i) = MRRB_READER_OVERRUN_BLOCKING"
  shows "stream_inv i mrrb [] []"
proof (rule stream_inv_idleI)
  from assms(1) have ne: "length buf \<noteq> 0" "rs \<noteq> []"
    and m: "mrrb = mrrb0\<lparr>buffer := buf, buffer_length := length buf, readers := rs,
                          write_ptr := 0, reservation_ptr := 0, ongoing_writes := 0,
                          readers := map init_reader rs\<rparr>"
    by (auto simp: mrrb_init_def Let_def split: if_splits)
  from ne show "0 < buffer_length mrrb" by (simp add: m)
  show "length (buffer mrrb) = buffer_length mrrb" by (simp add: m)
  show "i < length (readers mrrb)" using assms(2) by (simp add: m)
  show "overrun_policy (readers mrrb ! i) = MRRB_READER_OVERRUN_BLOCKING"
    using assms(2,3) by (simp add: m init_reader_def)
  show "ongoing_writes mrrb = 0" by (simp add: m)
  show "write_ptr mrrb = length ([] :: byte list) mod buffer_length mrrb" by (simp add: m)
  show "reservation_ptr mrrb = length ([] :: byte list) mod buffer_length mrrb"
    by (simp add: m)
  show "status (readers mrrb ! i) = MRRB_READER_STATUS_IDLE"
    using assms(2) by (simp add: m init_reader_def)
  show "([] :: byte list) = []" by simp
  show "read_complete_ptr (readers mrrb ! i) = length ([] :: byte list) mod buffer_length mrrb"
    using assms(2) by (simp add: m init_reader_def)
  show "\<not> is_full (readers mrrb ! i)" using assms(2) by (simp add: m init_reader_def)
qed

lemma call_inv:
  assumes inv: "stream_inv i mrrb s d"
    and small: "buffer_length mrrb < 2 ^ 31"
    and ok: "\<not> (input c \<noteq> [] \<and> returned mrrb c = 0 \<and>
                status (readers mrrb ! i) = MRRB_READER_STATUS_IDLE)"
  shows "0 \<le> returned mrrb c \<and> nat (returned mrrb c) \<le> length (input c) \<and>
         buffer_length (fst (call mrrb c)) = buffer_length mrrb \<and>
         stream_inv i (fst (call mrrb c)) (s @ take (nat (returned mrrb c)) (input c))
           (d @ notified i (buffer (fst (call mrrb c))) (snd (call mrrb c)))"
proof (cases c)
  case (Write data)
  obtain ret m' cbs where w: "mrrb_write port_ok mrrb (Some data) = (ret, m', cbs)"
    by (cases "mrrb_write port_ok mrrb (Some data)")
  from ok have "\<not> (data \<noteq> [] \<and> ret = 0 \<and>
                    status (readers mrrb ! i) = MRRB_READER_STATUS_IDLE)"
    by (simp add: Write w)
  from write_inv [OF inv small w this] show ?thesis by (simp add: Write w)
next
  case (Read_complete h)
  obtain m' cbs where r: "mrrb_read_complete True mrrb h = (m', cbs)"
    by (cases "mrrb_read_complete True mrrb h")
  from read_complete_inv [OF inv r] read_complete_buffer_length [of mrrb h]
  show ?thesis by (simp add: Read_complete r)
next
  case (Abort_complete h)
  obtain m' cbs where r: "mrrb_abort_complete True mrrb h = (m', cbs)"
    by (cases "mrrb_abort_complete True mrrb h")
  from abort_complete_inv [OF inv r] abort_complete_buffer_length [of mrrb h]
  show ?thesis by (simp add: Abort_complete r)
qed

lemma exec_inv:
  assumes "stream_inv i mrrb s d" and "idle_writes_accept i mrrb cs"
    and "buffer_length mrrb < 2 ^ 31"
  shows "stream_inv i (exec mrrb cs) (s @ accepted mrrb cs) (d @ delivered i mrrb cs) \<and>
         buffer_length (exec mrrb cs) = buffer_length mrrb \<and>
         int (length (accepted mrrb cs)) = sum_list (returns mrrb cs)"
  using assms
proof (induction cs arbitrary: mrrb s d)
  case Nil
  then show ?case by simp
next
  case (Cons c cs)
  let ?m = "fst (call mrrb c)"
  let ?a = "take (nat (returned mrrb c)) (input c)"
  let ?n = "notified i (buffer ?m) (snd (call mrrb c))"
  from Cons.prems(2) have ok: "\<not> (input c \<noteq> [] \<and> returned mrrb c = 0 \<and>
                status (readers mrrb ! i) = MRRB_READER_STATUS_IDLE)"
    and rest: "idle_writes_accept i ?m cs" by simp_all
  from call_inv [OF Cons.prems(1) Cons.prems(3) ok] have ret: "0 \<le> returned mrrb c"
    "nat (returned mrrb c) \<le> length (input c)" and inv: "stream_inv i ?m (s @ ?a) (d @ ?n)"
    and bl: "buffer_length ?m = buffer_length mrrb"
    by simp_all
  from Cons.prems(3) have small: "buffer_length ?m < 2 ^ 31" by (simp only: bl)
  from Cons.IH [OF inv rest small]
  have 1: "stream_inv i (exec ?m cs) ((s @ ?a) @ accepted ?m cs) ((d @ ?n) @ delivered i ?m cs)"
    and 2: "int (length (accepted ?m cs)) = sum_list (returns ?m cs)"
    and 3: "buffer_length (exec ?m cs) = buffer_length ?m" by simp_all
  have d: "delivered i mrrb (c # cs) = ?n @ delivered i ?m cs"
    by (simp add: case_prod_beta)
  have "length ?a = nat (returned mrrb c)" using ret(2) by simp
  with ret(1) 2 have "int (length (accepted mrrb (c # cs))) = sum_list (returns mrrb (c # cs))"
    by simp
  moreover from 1 have "stream_inv i (exec mrrb (c # cs)) (s @ accepted mrrb (c # cs))
      (d @ delivered i mrrb (c # cs))"
    unfolding d by simp
  moreover from 3 bl have "buffer_length (exec mrrb (c # cs)) = buffer_length mrrb" by simp
  ultimately show ?case by simp
qed

lemma stream_inv_prefix:
  assumes "stream_inv i mrrb s d"
  shows "d = take (length d) s" and "length s < length d + buffer_length mrrb"
    and "status (readers mrrb ! i) = MRRB_READER_STATUS_IDLE \<Longrightarrow> d = s"
proof -
  note g = stream_inv_global [OF assms]
  from g(8) have "d = take (length d) s \<and> length s < length d + buffer_length mrrb"
  proof
    assume idle: "status (readers mrrb ! i) = MRRB_READER_STATUS_IDLE"
    from stream_inv_idleD(1) [OF assms idle] g(1) show ?thesis by simp
  next
    assume act: "status (readers mrrb ! i) = MRRB_READER_STATUS_ACTIVE"
    from stream_inv_activeE [OF assms act] obtain c where "c < length d"
      "length s \<le> c + buffer_length mrrb" "d = take (length d) s" by blast
    then show ?thesis by simp
  qed
  then show "d = take (length d) s" and "length s < length d + buffer_length mrrb"
    by blast+
  show "status (readers mrrb ! i) = MRRB_READER_STATUS_IDLE \<Longrightarrow> d = s"
    by (rule stream_inv_idleD(1) [OF assms])
qed

lemma two_mrrb_eq:
  "two_mrrb =
     \<lparr>buffer = [0, 0, 0, 0], buffer_length = 4,
      readers = [\<lparr>handle = 1, overrun_policy = MRRB_READER_OVERRUN_BLOCKING, read_ptr = 0,
                 read_complete_ptr = 0, status = MRRB_READER_STATUS_IDLE, is_full = False,
                 notify_data = 1, abort_data = 0\<rparr>,
                \<lparr>handle = 2, overrun_policy = MRRB_READER_OVERRUN_BLOCKING, read_ptr = 0,
                 read_complete_ptr = 0, status = MRRB_READER_STATUS_IDLE, is_full = False,
                 notify_data = 1, abort_data = 0\<rparr>],
      write_ptr = 0, reservation_ptr = 0, ongoing_writes = 0\<rparr>"
  by (simp add: two_mrrb_def new_mrrb_def mrrb_init_def Let_def blank_mrrb_def
      init_reader_def new_reader_simp numeral_eq_Suc)

lemma pending_calls_eval:
  "delivered 0 blocking_mrrb pending_calls = [1, 2, 3] \<and>
   accepted blocking_mrrb pending_calls = [1, 2, 3, 4] \<and>
   returns blocking_mrrb pending_calls = [3, 1] \<and>
   exec blocking_mrrb pending_calls =
     \<lparr>buffer = [1, 2, 3, 4], buffer_length = 4,
      readers = [\<lparr>handle = 1, overrun_policy = MRRB_READER_OVERRUN_BLOCKING, read_ptr = 3,
                 read_complete_ptr = 0, status = MRRB_READER_STATUS_ACTIVE, is_full = True,
                 notify_data = 1, abort_data = 0\<rparr>],
      write_ptr = 0, reservation_ptr = 0, ongoing_writes = 0\<rparr>"
  by (simp add: pending_calls_def blocking_mrrb_eq eval_defs)

text \<open>
  C1 as stated fails. On a fresh 4-byte MRRB with one BLOCKING reader, \<^verbatim>\<open>mrrb_write\<close> of
  the bytes 1, 2, 3 returns 3 and notifies the reader of them; \<^verbatim>\<open>mrrb_write\<close> of the byte 4
  returns 1 and notifies nothing, because the reader is ACTIVE. The values returned sum up
  to 4 and the prefix of that length of the writer input is 1, 2, 3, 4, but the reader has
  been handed 1, 2, 3 only: the byte 4 waits for \<^verbatim>\<open>mrrb_read_complete\<close>.
\<close>

theorem blocking_reader_pending_counterexample:
  "overrun_policy (readers blocking_mrrb ! 0) = MRRB_READER_OVERRUN_BLOCKING \<and>
   status (readers blocking_mrrb ! 0) = MRRB_READER_STATUS_IDLE \<and>
   returns blocking_mrrb pending_calls = [3, 1] \<and>
   writer_stream_prefix blocking_mrrb pending_calls = [1, 2, 3, 4] \<and>
   delivered 0 blocking_mrrb pending_calls = [1, 2, 3]"
proof -
  have "writer_stream_prefix blocking_mrrb pending_calls = [1, 2, 3, 4]"
    unfolding writer_stream_prefix_def by (simp add: pending_calls_eval) (simp add: pending_calls_def)
  then show ?thesis by (simp add: pending_calls_eval) (simp add: blocking_mrrb_eq)
qed

text \<open>
  C1, amended. Take an MRRB after a successful \<^verbatim>\<open>mrrb_init\<close> on a buffer of the given
  length, which is below 2147483648 (so that \<^verbatim>\<open>mrrb_write\<close> returns its
  \<^verbatim>\<open>write_length\<close> unchanged by the conversion to \<^verbatim>\<open>int\<close>), a reader \<open>i\<close> of it with
  the BLOCKING policy, and any sequence of \<^verbatim>\<open>mrrb_write\<close>, \<^verbatim>\<open>mrrb_read_complete\<close> and
  \<^verbatim>\<open>mrrb_abort_complete\<close> calls made one after the other (locks succeed, no call from an
  interrupt handler) in which no write of non-empty data returns 0 while the reader is
  IDLE. Then the bytes passed to the reader's notify callback are a prefix of the accepted
  stream (of each write the first \<open>ret\<close> bytes of its input), they are the whole accepted
  stream whenever the reader is IDLE after the last call, fewer than a buffer length of
  accepted bytes are outstanding, and the accepted stream is as long as the sum of the
  values returned.
\<close>

theorem blocking_reader_delivery:
  assumes "mrrb_init True mrrb0 (Some buf) (length buf) (Some rs) = (0, mrrb)"
    and "length buf < 2 ^ 31"
    and "i < length rs"
    and "overrun_policy (rs ! i) = MRRB_READER_OVERRUN_BLOCKING"
    and "idle_writes_accept i mrrb cs"
  shows "delivered i mrrb cs = take (length (delivered i mrrb cs)) (accepted mrrb cs) \<and>
         (status (readers (exec mrrb cs) ! i) = MRRB_READER_STATUS_IDLE \<longrightarrow>
            delivered i mrrb cs = accepted mrrb cs) \<and>
         length (accepted mrrb cs) < length (delivered i mrrb cs) + length buf \<and>
         int (length (accepted mrrb cs)) = sum_list (returns mrrb cs)"
proof -
  note bl = mrrb_init_buffer_length [OF assms(1)]
  from assms(2) have small: "buffer_length mrrb < 2 ^ 31" by (simp only: bl)
  from exec_inv [OF stream_inv_init [OF assms(1,3,4)] assms(5) small]
  have inv: "stream_inv i (exec mrrb cs) (accepted mrrb cs) (delivered i mrrb cs)"
    and len: "int (length (accepted mrrb cs)) = sum_list (returns mrrb cs)"
    and ble: "buffer_length (exec mrrb cs) = length buf" by (simp_all add: bl)
  from stream_inv_prefix [OF inv] len show ?thesis unfolding ble by blast
qed

theorem blocking_reader_delivery_witness:
  "mrrb_init True blank_mrrb (Some [0, 0, 0, 0]) (length [0, 0, 0, 0 :: byte])
     (Some [new_reader 1 MRRB_READER_OVERRUN_BLOCKING 0]) = (0, blocking_mrrb) \<and>
   length [0, 0, 0, 0 :: byte] < 2 ^ 31 \<and>
   idle_writes_accept 0 blocking_mrrb drain_calls \<and>
   status (readers (exec blocking_mrrb drain_calls) ! 0) = MRRB_READER_STATUS_IDLE \<and>
   returns blocking_mrrb drain_calls = [3, 1, 0, 0] \<and>
   accepted blocking_mrrb drain_calls = [1, 2, 3, 4] \<and>
   delivered 0 blocking_mrrb drain_calls = [1, 2, 3, 4]"
proof -
  have 1: "mrrb_init True blank_mrrb (Some [0, 0, 0, 0]) (length [0, 0, 0, 0 :: byte])
     (Some [new_reader 1 MRRB_READER_OVERRUN_BLOCKING 0]) = (0, blocking_mrrb)"
    by (simp add: blocking_mrrb_eq mrrb_init_def Let_def blank_mrrb_def init_reader_def
        new_reader_simp)
  have 2: "0 < length [new_reader 1 MRRB_READER_OVERRUN_BLOCKING 0]" by simp
  have 8: "length [0, 0, 0, 0 :: byte] < 2 ^ 31" by simp
  have 3: "overrun_policy ([new_reader 1 MRRB_READER_OVERRUN_BLOCKING 0] ! 0) =
           MRRB_READER_OVERRUN_BLOCKING" by (simp add: new_reader_simp)
  have 4: "idle_writes_accept 0 blocking_mrrb drain_calls"
    by (simp add: drain_calls_def blocking_mrrb_eq eval_defs)
  have 5: "status (readers (exec blocking_mrrb drain_calls) ! 0) = MRRB_READER_STATUS_IDLE"
    by (simp add: drain_calls_def blocking_mrrb_eq eval_defs)
  have 6: "returns blocking_mrrb drain_calls = [3, 1, 0, 0]"
    by (simp add: drain_calls_def blocking_mrrb_eq eval_defs)
  have 7: "accepted blocking_mrrb drain_calls = [1, 2, 3, 4]"
    by (simp add: drain_calls_def blocking_mrrb_eq eval_defs)
  from blocking_reader_delivery [OF 1 8 2 3 4] 5
  have "delivered 0 blocking_mrrb drain_calls = accepted blocking_mrrb drain_calls" by blast
  with 1 4 5 6 7 show ?thesis by simp
qed

text \<open>
  The condition on the writes is needed. With two BLOCKING readers on a 4-byte MRRB, a write
  of 4 bytes fills both; the first reader completes and is IDLE, the second one does not. A
  write of one more byte returns 0, since the second reader has no space, but it sets the
  \<open>is_full\<close> flag of the first reader (its \<open>read_complete_ptr\<close> equals the reservation
  pointer) and notifies it of the whole buffer a second time.
\<close>

lemma blocking_reader_duplicate_delivery:
  "returns two_mrrb duplicate_calls = [4, 0, 0] \<and>
   accepted two_mrrb duplicate_calls = [1, 2, 3, 4] \<and>
   delivered 0 two_mrrb duplicate_calls = [1, 2, 3, 4, 1, 2, 3, 4] \<and>
   \<not> idle_writes_accept 0 two_mrrb duplicate_calls"
  by (simp add: duplicate_calls_def two_mrrb_eq eval_defs)

end
